theory Spec2Isabelle
  imports Main "HOL-Library.Word" "HOL-Library.Sublist"
begin

section \<open>JavaScript strings and values\<close>

text \<open>
  A JavaScript string is a sequence of UTF-16 code units, and \<^verbatim>\<open>.length\<close> counts
  code units, so a string is a list of 16-bit words. \<open>js\<close> writes an ASCII literal.
\<close>

type_synonym jsstring = "16 word list"

definition js :: "string \<Rightarrow> jsstring" where
  "js s = map of_char s"

text \<open>
  The characters removed by \<^verbatim>\<open>String.prototype.trim\<close> and matched by the regular
  expression class \<^verbatim>\<open>\s\<close>: ECMAScript WhiteSpace and LineTerminator.
\<close>

definition is_ws :: "16 word \<Rightarrow> bool" where
  "is_ws c \<longleftrightarrow>
     c = 0x9 \<or> c = 0xA \<or> c = 0xB \<or> c = 0xC \<or> c = 0xD \<or> c = 0x20 \<or> c = 0xA0 \<or>
     c = 0x1680 \<or> (0x2000 \<le> c \<and> c \<le> 0x200A) \<or> c = 0x2028 \<or> c = 0x2029 \<or>
     c = 0x202F \<or> c = 0x205F \<or> c = 0x3000 \<or> c = 0xFEFF"

definition trim :: "jsstring \<Rightarrow> jsstring" where
  "trim s = rev (dropWhile is_ws (rev (dropWhile is_ws s)))"

definition nl :: "16 word" where
  "nl = 0xA"

text \<open>\<^verbatim>\<open>text.split('\n')\<close>: the empty string gives one empty line.\<close>

fun split_nl :: "jsstring \<Rightarrow> jsstring list" where
  "split_nl [] = [[]]"
| "split_nl (c # cs) =
     (if c = nl then [] # split_nl cs
      else (case split_nl cs of [] \<Rightarrow> [[c]] | l # ls \<Rightarrow> (c # l) # ls))"

definition startsWith :: "jsstring \<Rightarrow> jsstring \<Rightarrow> bool" where
  "startsWith s p \<longleftrightarrow> take (length p) s = p"

definition endsWith :: "jsstring \<Rightarrow> jsstring \<Rightarrow> bool" where
  "endsWith s p \<longleftrightarrow> startsWith (rev s) (rev p)"

text \<open>\<^verbatim>\<open>s.includes(p)\<close>: \<open>p\<close> occurs in \<open>s\<close> as a contiguous substring.\<close>

fun includes_str :: "jsstring \<Rightarrow> jsstring \<Rightarrow> bool" where
  "includes_str [] p = (p = [])"
| "includes_str (c # cs) p = (startsWith (c # cs) p \<or> includes_str cs p)"

text \<open>
  \<^verbatim>\<open>s.indexOf(p)\<close> and \<^verbatim>\<open>s.lastIndexOf(p)\<close>: the first and the last position
  where \<open>p\<close> occurs, or \<open>-1\<close>.
\<close>

fun indexOf_from :: "nat \<Rightarrow> jsstring \<Rightarrow> jsstring \<Rightarrow> int" where
  "indexOf_from i [] p = (if p = [] then int i else -1)"
| "indexOf_from i (c # cs) p =
     (if startsWith (c # cs) p then int i else indexOf_from (Suc i) cs p)"

definition indexOf :: "jsstring \<Rightarrow> jsstring \<Rightarrow> int" where
  "indexOf s p = indexOf_from 0 s p"

fun lastIndexOf_from :: "nat \<Rightarrow> jsstring \<Rightarrow> jsstring \<Rightarrow> int" where
  "lastIndexOf_from i [] p = (if p = [] then int i else -1)"
| "lastIndexOf_from i (c # cs) p =
     (let later = lastIndexOf_from (Suc i) cs p
      in if later \<noteq> -1 then later
         else if startsWith (c # cs) p then int i else -1)"

definition lastIndexOf :: "jsstring \<Rightarrow> jsstring \<Rightarrow> int" where
  "lastIndexOf s p = lastIndexOf_from 0 s p"

text \<open>\<^verbatim>\<open>s.substring(0, n)\<close>; a negative \<open>n\<close> counts as 0.\<close>

definition substring0 :: "jsstring \<Rightarrow> int \<Rightarrow> jsstring" where
  "substring0 s n = take (nat n) s"

text \<open>
  \<^verbatim>\<open>String(n)\<close> of an integer: its decimal digits, with a minus sign when negative
  (the integers meant are array indices, far inside the range where JavaScript prints
  a number without an exponent).
\<close>

fun digits :: "nat \<Rightarrow> jsstring" where
  "digits n = (if n < 10 then [0x30 + of_nat n] else digits (n div 10) @ [0x30 + of_nat (n mod 10)])"

definition String_int :: "int \<Rightarrow> jsstring" where
  "String_int n = (if n < 0 then 0x2D # digits (nat (- n)) else digits (nat n))"

text \<open>The number that a string of decimal digits stands for.\<close>

definition decimal_value :: "jsstring \<Rightarrow> nat" where
  "decimal_value s = foldl (\<lambda>a c. 10 * a + unat (c - 0x30)) 0 s"

text \<open>
  An element of an index array as it exists at run time. The declared type is
  \<^verbatim>\<open>number[]\<close>, but the arrays come from \<^verbatim>\<open>JSON.parse\<close> of a model's reply, where a
  string can stand for a number (the source's own comments say so).
\<close>

datatype index = Num int | Str jsstring

fun String_js :: "index \<Rightarrow> jsstring" where
  "String_js (Num n) = String_int n"
| "String_js (Str s) = s"

text \<open>
  \<^verbatim>\<open>new Set(xs)\<close>: the elements in insertion order without repetition; \<^verbatim>\<open>set.size\<close> is
  the length of that list and \<^verbatim>\<open>set.has(a)\<close> is membership (SameValueZero is equality
  on numbers that are integers and on strings, and never equates a number with a string).
\<close>

definition Set_add :: "'a list \<Rightarrow> 'a \<Rightarrow> 'a list" where
  "Set_add s x = (if x \<in> set s then s else s @ [x])"

definition new_Set :: "'a list \<Rightarrow> 'a list" where
  "new_Set xs = foldl Set_add [] xs"

definition Set_has :: "'a list \<Rightarrow> 'a \<Rightarrow> bool" where
  "Set_has s x \<longleftrightarrow> x \<in> set s"

text \<open>
  A \<^verbatim>\<open>Map\<close>, and an object used as a dictionary, as the list of its entries in
  insertion order: setting an existing key keeps its place, a new key goes last.
\<close>

fun Map_set :: "('k \<times> 'v) list \<Rightarrow> 'k \<Rightarrow> 'v \<Rightarrow> ('k \<times> 'v) list" where
  "Map_set [] k v = [(k, v)]"
| "Map_set ((k', v') # m) k v = (if k' = k then (k, v) # m else (k', v') # Map_set m k v)"

definition Map_get :: "('k \<times> 'v) list \<Rightarrow> 'k \<Rightarrow> 'v option" where
  "Map_get m k = map_of m k"

definition Map_delete :: "('k \<times> 'v) list \<Rightarrow> 'k \<Rightarrow> ('k \<times> 'v) list" where
  "Map_delete m k = filter (\<lambda>e. fst e \<noteq> k) m"

definition Map_values :: "('k \<times> 'v) list \<Rightarrow> 'v list" where
  "Map_values m = map snd m"

datatype error = TypeError | SyntaxError

section \<open>The data model (types.ts)\<close>

datatype QuestionType = SINGLE | MULTIPLE | JUDGMENT

text \<open>
  The fields \<^verbatim>\<open>id\<close>, \<^verbatim>\<open>text\<close> and \<^verbatim>\<open>type\<close> of a Question are \<open>qid\<close>, \<open>qtext\<close> and
  \<open>qtype\<close> here; the \<^verbatim>\<open>id\<close> of a session is \<open>sid\<close>, and the fields of a bank carry a
  \<open>b\<close>.
\<close>

record Question =
  qid :: jsstring
  qtext :: jsstring
  options :: "jsstring list"
  correctIndices :: "index list"
  explanation :: jsstring
  qtype :: QuestionType

record QuestionBank =
  bid :: jsstring
  bname :: jsstring
  createdAt :: int
  bquestions :: "Question list"

record QuizConfig =
  enableTimer :: bool
  timeLimit :: int
  instantFeedback :: bool

datatype Status = Active | Review | Finished

record QuizSession =
  sid :: jsstring
  bankName :: jsstring
  questions :: "Question list"
  currentQuestionIndex :: nat
  answers :: "(jsstring \<times> index list) list"
  status :: Status
  startTime :: int
  timeRemaining :: int
  config :: QuizConfig
  lastUpdated :: int

record MistakeRecord =
  question :: Question
  consecutiveCorrect :: int
  lastReviewed :: int
  originalBankName :: "jsstring option"

section \<open>Text chunker (chunkText)\<close>

text \<open>
  The loop of \<^verbatim>\<open>chunkText\<close> over the lines, on the pair of the chunks pushed so far and
  \<^verbatim>\<open>currentChunk\<close>. The test measures \<^verbatim>\<open>currentChunk + line\<close>; the line is then
  appended with its newline.
\<close>

fun chunk_loop :: "int \<Rightarrow> jsstring list \<Rightarrow> jsstring list \<times> jsstring \<Rightarrow> jsstring list \<times> jsstring" where
  "chunk_loop chunkSize [] (chunks, currentChunk) = (chunks, currentChunk)"
| "chunk_loop chunkSize (line # lines) (chunks, currentChunk) =
     (if int (length (currentChunk @ line)) > chunkSize
      then chunk_loop chunkSize lines
             (if trim currentChunk \<noteq> [] then chunks @ [currentChunk] else chunks, [] @ line @ [nl])
      else chunk_loop chunkSize lines (chunks, currentChunk @ line @ [nl]))"

definition chunkText :: "jsstring \<Rightarrow> int \<Rightarrow> jsstring list" where
  "chunkText text chunkSize =
     (case chunk_loop chunkSize (split_nl text) ([], []) of
        (chunks, currentChunk) \<Rightarrow>
          if trim currentChunk \<noteq> [] then chunks @ [currentChunk] else chunks)"

text \<open>The text of a sequence of lines, each followed by its newline, as a chunk holds them.\<close>

definition unlines :: "jsstring list \<Rightarrow> jsstring" where
  "unlines ls = concat (map (\<lambda>l. l @ [nl]) ls)"

definition nonblank :: "jsstring \<Rightarrow> bool" where
  "nonblank l \<longleftrightarrow> trim l \<noteq> []"

text \<open>
  The runs of lines that the loop gathers, one run for each value \<^verbatim>\<open>currentChunk\<close> has
  when the loop leaves it: the same loop on lists of lines, without the test that
  decides whether a run is emitted. A run is closed when the next line would take its
  text beyond the budget.
\<close>

fun group_loop ::
  "int \<Rightarrow> jsstring list \<Rightarrow> jsstring list list \<times> jsstring list \<Rightarrow> jsstring list list \<times> jsstring list" where
  "group_loop chunkSize [] (groups, current) = (groups, current)"
| "group_loop chunkSize (line # lines) (groups, current) =
     (if int (length (unlines current @ line)) > chunkSize
      then group_loop chunkSize lines (if current \<noteq> [] then groups @ [current] else groups, [line])
      else group_loop chunkSize lines (groups, current @ [line]))"

definition line_groups :: "int \<Rightarrow> jsstring list \<Rightarrow> jsstring list list" where
  "line_groups chunkSize lines =
     (case group_loop chunkSize lines ([], []) of
        (groups, current) \<Rightarrow> if current \<noteq> [] then groups @ [current] else groups)"

text \<open>A run of lines is emitted when its text has a character that is not white space.\<close>

definition emitted :: "jsstring list \<Rightarrow> bool" where
  "emitted g \<longleftrightarrow> trim (unlines g) \<noteq> []"

text \<open>
  What the loop guarantees of a chunk: at most one character (the last newline) over the
  budget, or a single line of the text that is longer than the budget by itself.
\<close>

definition within_budget :: "int \<Rightarrow> jsstring list \<Rightarrow> jsstring \<Rightarrow> bool" where
  "within_budget n all c \<longleftrightarrow>
     int (length c) \<le> n + 1 \<or> (\<exists>l \<in> set all. c = l @ [nl] \<and> int (length l) > n)"

section \<open>JSON repair (repairJSON)\<close>

text \<open>
  The two replacements of the source on a string \<open>s\<close>.
  \<^verbatim>\<open>s.replace(/^```json\s*/, "")\<close> removes a leading fence with the white space after it;
  \<^verbatim>\<open>s.replace(/\s*```$/, "")\<close> removes a closing fence at the very end of the string
  with the white space before it (the leftmost match starts where that run of white
  space starts).
\<close>

definition fence :: jsstring where
  "fence = js ''```''"

definition fence_json :: jsstring where
  "fence_json = js ''```json''"

definition strip_open :: "jsstring \<Rightarrow> jsstring \<Rightarrow> jsstring" where
  "strip_open opening s =
     (if startsWith s opening then dropWhile is_ws (drop (length opening) s) else s)"

definition strip_close :: "jsstring \<Rightarrow> jsstring" where
  "strip_close s =
     (if endsWith s fence then rev (dropWhile is_ws (drop (length fence) (rev s))) else s)"

text \<open>
  \<^verbatim>\<open>JSON.parse\<close> belongs to the host, not to this program, and \<^verbatim>\<open>repairJSON\<close> uses
  only whether it throws: \<open>parse\<close> is that function, \<open>Inl\<close> when it throws. The
  \<^verbatim>\<open>try\<close>/\<^verbatim>\<open>catch\<close> of the source is the case distinction on its result.
\<close>

definition repairJSON :: "(jsstring \<Rightarrow> error + 'v) \<Rightarrow> jsstring \<Rightarrow> error + jsstring" where
  "repairJSON parse jsonStr =
     (case parse jsonStr of
        Inr v \<Rightarrow> Inr jsonStr
      | Inl e \<Rightarrow>
          (let trimmed = trim jsonStr;
               trimmed = (if startsWith trimmed fence_json
                          then strip_close (strip_open fence_json trimmed) else trimmed);
               trimmed = (if startsWith trimmed fence
                          then strip_close (strip_open fence trimmed) else trimmed);
               openBracket = indexOf trimmed (js ''['')
           in if openBracket = -1 then Inr (js ''{}'')
              else (let lastComma = lastIndexOf trimmed (js ''},'')
                    in if lastComma > openBracket
                       then Inr (substring0 trimmed (lastComma + 1) @ js '']}'')
                       else if endsWith trimmed (js ''}'') then Inr (trimmed @ js '']}'')
                       else Inr trimmed)))"

subsection \<open>A recogniser of JSON texts\<close>

text \<open>
  One instance of \<open>parse\<close>, for running \<open>repairJSON\<close> on concrete inputs: the grammar
  of JSON (RFC 8259), which is what \<^verbatim>\<open>JSON.parse\<close> accepts. The recursion is on a
  counter that the caller sets from the length of the text.
\<close>

definition json_ws :: "16 word \<Rightarrow> bool" where
  "json_ws c \<longleftrightarrow> c = 0x20 \<or> c = 0x9 \<or> c = 0xA \<or> c = 0xD"

definition is_digit :: "16 word \<Rightarrow> bool" where
  "is_digit c \<longleftrightarrow> 0x30 \<le> c \<and> c \<le> 0x39"

definition is_hex :: "16 word \<Rightarrow> bool" where
  "is_hex c \<longleftrightarrow> is_digit c \<or> (0x41 \<le> c \<and> c \<le> 0x46) \<or> (0x61 \<le> c \<and> c \<le> 0x66)"

text \<open>The rest of a string after its opening quote, up to and including the closing quote.\<close>

fun json_string_rest :: "jsstring \<Rightarrow> jsstring option" where
  "json_string_rest [] = None"
| "json_string_rest [c] = (if c = 0x22 then Some [] else None)"
| "json_string_rest (c # e # cs) =
     (if c = 0x22 then Some (e # cs)
      else if c < 0x20 then None
      else if c = 0x5C then
        (if e = 0x22 \<or> e = 0x5C \<or> e = 0x2F \<or> e = 0x62 \<or> e = 0x66 \<or> e = 0x6E \<or> e = 0x72 \<or> e = 0x74
         then json_string_rest cs
         else if e = 0x75 \<and> length cs \<ge> 4 \<and> list_all is_hex (take 4 cs)
         then json_string_rest cs
         else None)
      else json_string_rest (e # cs))"

definition json_exponent :: "jsstring \<Rightarrow> jsstring option" where
  "json_exponent s =
     (case s of
        [] \<Rightarrow> Some []
      | c # r \<Rightarrow>
          if c = 0x65 \<or> c = 0x45 then
            (let r' = (case r of [] \<Rightarrow> [] | g # t \<Rightarrow> if g = 0x2B \<or> g = 0x2D then t else r)
             in case r' of [] \<Rightarrow> None
                | d # t \<Rightarrow> if is_digit d then Some (dropWhile is_digit t) else None)
          else Some s)"

definition json_fraction :: "jsstring \<Rightarrow> jsstring option" where
  "json_fraction s =
     (case s of
        [] \<Rightarrow> Some []
      | c # r \<Rightarrow>
          if c = 0x2E then
            (case r of [] \<Rightarrow> None
             | d # t \<Rightarrow> if is_digit d then json_exponent (dropWhile is_digit t) else None)
          else json_exponent s)"

definition json_number :: "jsstring \<Rightarrow> jsstring option" where
  "json_number s =
     (let s' = (case s of [] \<Rightarrow> [] | c # r \<Rightarrow> if c = 0x2D then r else s)
      in case s' of [] \<Rightarrow> None
         | d # r \<Rightarrow>
             if d = 0x30 then json_fraction r
             else if is_digit d then json_fraction (dropWhile is_digit r)
             else None)"

fun json_value :: "nat \<Rightarrow> jsstring \<Rightarrow> jsstring option"
  and json_elements :: "nat \<Rightarrow> jsstring \<Rightarrow> jsstring option"
  and json_members :: "nat \<Rightarrow> jsstring \<Rightarrow> jsstring option" where
  "json_value 0 s = None"
| "json_value (Suc f) s =
     (case dropWhile json_ws s of
        [] \<Rightarrow> None
      | c # cs \<Rightarrow>
          if c = 0x7B then
            (case dropWhile json_ws cs of
               [] \<Rightarrow> None
             | d # r \<Rightarrow> if d = 0x7D then Some r else json_members f (d # r))
          else if c = 0x5B then
            (case dropWhile json_ws cs of
               [] \<Rightarrow> None
             | d # r \<Rightarrow> if d = 0x5D then Some r else json_elements f (d # r))
          else if c = 0x22 then json_string_rest cs
          else if startsWith (c # cs) (js ''true'') then Some (drop 4 (c # cs))
          else if startsWith (c # cs) (js ''false'') then Some (drop 5 (c # cs))
          else if startsWith (c # cs) (js ''null'') then Some (drop 4 (c # cs))
          else json_number (c # cs))"
| "json_elements 0 s = None"
| "json_elements (Suc f) s =
     (case json_value f s of
        None \<Rightarrow> None
      | Some r \<Rightarrow>
          (case dropWhile json_ws r of
             [] \<Rightarrow> None
           | c # r' \<Rightarrow>
               if c = 0x2C then json_elements f r'
               else if c = 0x5D then Some r'
               else None))"
| "json_members 0 s = None"
| "json_members (Suc f) s =
     (case s of
        [] \<Rightarrow> None
      | q # cs \<Rightarrow>
          if q \<noteq> 0x22 then None
          else
            (case json_string_rest cs of
               None \<Rightarrow> None
             | Some r \<Rightarrow>
                 (case dropWhile json_ws r of
                    [] \<Rightarrow> None
                  | c # r' \<Rightarrow>
                      if c \<noteq> 0x3A then None
                      else
                        (case json_value f r' of
                           None \<Rightarrow> None
                         | Some r2 \<Rightarrow>
                             (case dropWhile json_ws r2 of
                                [] \<Rightarrow> None
                              | c2 # r3 \<Rightarrow>
                                  if c2 = 0x2C then json_members f (dropWhile json_ws r3)
                                  else if c2 = 0x7D then Some r3
                                  else None)))))"

definition JSON_parse :: "jsstring \<Rightarrow> error + unit" where
  "JSON_parse s =
     (case json_value (2 * length s + 2) s of
        None \<Rightarrow> Inl SyntaxError
      | Some r \<Rightarrow> if dropWhile json_ws r = [] then Inr () else Inl SyntaxError)"

section \<open>Type normalisation (parseDocumentToQuiz, post-processing)\<close>

text \<open>
  The \<^verbatim>\<open>type\<close> field of a raw question is whatever \<^verbatim>\<open>JSON.parse\<close> produced; of a
  value that is not a string the code uses only that it is not one.
\<close>

datatype jsval = JUndefined | JNull | JBool bool | JNumber int | JString jsstring | JObject

definition term_multiple :: jsstring where
  "term_multiple = [0x591A, 0x9009]"

definition term_judgment :: jsstring where
  "term_judgment = [0x5224, 0x65AD]"

text \<open>
  \<^verbatim>\<open>String.prototype.toLowerCase\<close> is the host's Unicode lower-casing; the code uses it
  as a function from strings to strings, and it is the parameter \<open>toLowerCase\<close> here.
\<close>

definition normalizeType :: "(jsstring \<Rightarrow> jsstring) \<Rightarrow> jsval \<Rightarrow> QuestionType" where
  "normalizeType toLowerCase t =
     (case t of
        JString s \<Rightarrow>
          (let lower = toLowerCase s
           in if includes_str lower (js ''multiple'') \<or> includes_str lower (js ''check'') \<or>
                 includes_str lower term_multiple then MULTIPLE
              else if includes_str lower (js ''true'') \<or> includes_str lower (js ''false'') \<or>
                      includes_str lower (js ''judgment'') \<or> includes_str lower term_judgment then JUDGMENT
              else SINGLE)
      | _ \<Rightarrow> SINGLE)"

text \<open>Lower-casing of the letters A to Z, which is what the host does on ASCII text.\<close>

definition lower_ascii :: "jsstring \<Rightarrow> jsstring" where
  "lower_ascii s = map (\<lambda>c. if 0x41 \<le> c \<and> c \<le> 0x5A then c + 0x20 else c) s"

section \<open>Grading an answer\<close>

text \<open>
  The result tally of \<^verbatim>\<open>ResultView\<close> and the navigator of \<^verbatim>\<open>QuizView\<close> compare the
  two index arrays after \<^verbatim>\<open>.map(String)\<close>: equal sizes, then every element of the
  correct set looked up in the user's set.
\<close>

definition isRight_ResultView :: "index list \<Rightarrow> index list \<Rightarrow> bool" where
  "isRight_ResultView correct answer =
     (let correctSet = new_Set (map String_js correct);
          userSet = new_Set (map String_js answer);
          isRight = (length correctSet = length userSet)
      in if isRight
         then foldl (\<lambda>r a. if \<not> Set_has userSet a then False else r) isRight correctSet
         else isRight)"

text \<open>\<^verbatim>\<open>isDraftCorrect\<close> of \<^verbatim>\<open>QuizView\<close>, the per-question feedback: the same with early returns.\<close>

fun all_in :: "'a list \<Rightarrow> 'a list \<Rightarrow> bool" where
  "all_in [] userSet = True"
| "all_in (a # as) userSet = (if \<not> Set_has userSet a then False else all_in as userSet)"

definition isDraftCorrect :: "bool \<Rightarrow> index list \<Rightarrow> index list \<Rightarrow> bool" where
  "isDraftCorrect isSubmitted correct draftSelection =
     (if \<not> isSubmitted then False
      else (let correctSet = new_Set (map String_js correct);
                userSet = new_Set (map String_js draftSelection)
            in if length correctSet \<noteq> length userSet then False
               else all_in correctSet userSet))"

text \<open>
  \<^verbatim>\<open>updateMistakesDatabase\<close> builds the two sets from the arrays as they are, with no
  conversion to strings.
\<close>

definition isRight_tracker :: "index list \<Rightarrow> index list \<Rightarrow> bool" where
  "isRight_tracker correct userIndices =
     (let correctSet = new_Set correct;
          userSet = new_Set userIndices;
          isRight = (length correctSet = length userSet)
      in if isRight
         then foldl (\<lambda>r a. if \<not> Set_has userSet a then False else r) isRight correctSet
         else isRight)"

text \<open>The tally of \<^verbatim>\<open>ResultView\<close>: the numbers of correct, incorrect and skipped questions.\<close>

fun tally :: "(jsstring \<times> index list) list \<Rightarrow> Question list \<Rightarrow> nat \<times> nat \<times> nat \<Rightarrow> nat \<times> nat \<times> nat" where
  "tally ans [] counts = counts"
| "tally ans (q # qs) (correctCount, incorrectCount, skippedCount) =
     (case Map_get ans (qid q) of
        None \<Rightarrow> tally ans qs (correctCount, incorrectCount, skippedCount + 1)
      | Some answer \<Rightarrow>
          if length answer = 0 then tally ans qs (correctCount, incorrectCount, skippedCount + 1)
          else if isRight_ResultView (correctIndices q) answer
          then tally ans qs (correctCount + 1, incorrectCount, skippedCount)
          else tally ans qs (correctCount, incorrectCount + 1, skippedCount))"

section \<open>Mistake tracker (updateMistakesDatabase)\<close>

definition MASTERY_THRESHOLD :: int where
  "MASTERY_THRESHOLD = 3"

text \<open>
  \<^verbatim>\<open>mistakeMap\<close> holds the records of the state by question id. The body of the
  \<^verbatim>\<open>forEach\<close> over \<^verbatim>\<open>Object.entries(finishedSession.answers)\<close> is \<open>tracker_step\<close>, on the
  pair of \<^verbatim>\<open>mistakeMap\<close> and \<^verbatim>\<open>madeChanges\<close>; \<open>now\<close> is \<^verbatim>\<open>Date.now()\<close>. The source
  updates an existing record in place: the record in the map is that object, so the
  entry of the map changes with it.
\<close>

definition tracker_step ::
  "int \<Rightarrow> QuizSession \<Rightarrow> (jsstring \<times> MistakeRecord) list \<times> bool \<Rightarrow> jsstring \<times> index list
     \<Rightarrow> (jsstring \<times> MistakeRecord) list \<times> bool" where
  "tracker_step now finishedSession st entry =
     (case st of (mistakeMap, madeChanges) \<Rightarrow>
      case entry of (qId, userIndices) \<Rightarrow>
       (case find (\<lambda>q. qid q = qId) (questions finishedSession) of
          None \<Rightarrow> (mistakeMap, madeChanges)
        | Some quest \<Rightarrow>
            (let isRight = isRight_tracker (correctIndices quest) userIndices
             in case Map_get mistakeMap qId of
                  Some existingRecord \<Rightarrow>
                    if isRight then
                      (let r = existingRecord\<lparr>consecutiveCorrect := consecutiveCorrect existingRecord + 1,
                                              lastReviewed := now\<rparr>
                       in (if consecutiveCorrect r \<ge> MASTERY_THRESHOLD
                           then Map_delete mistakeMap qId
                           else Map_set mistakeMap qId r, True))
                    else
                      (Map_set mistakeMap qId
                         (existingRecord\<lparr>consecutiveCorrect := 0, lastReviewed := now\<rparr>), True)
                | None \<Rightarrow>
                    if isRight then (mistakeMap, madeChanges)
                    else
                      (Map_set mistakeMap qId
                         \<lparr>question = quest, consecutiveCorrect = 0, lastReviewed = now,
                          originalBankName = Some (bankName finishedSession)\<rparr>, True))))"

definition build_mistakeMap :: "MistakeRecord list \<Rightarrow> (jsstring \<times> MistakeRecord) list" where
  "build_mistakeMap mistakes = foldl (\<lambda>m r. Map_set m (qid (question r)) r) [] mistakes"

definition updateMistakesDatabase :: "int \<Rightarrow> MistakeRecord list \<Rightarrow> QuizSession \<Rightarrow> MistakeRecord list" where
  "updateMistakesDatabase now mistakes finishedSession =
     (case foldl (tracker_step now finishedSession) (build_mistakeMap mistakes, False)
             (answers finishedSession) of
        (mistakeMap, madeChanges) \<Rightarrow>
          if madeChanges then Map_values mistakeMap else mistakes)"

text \<open>
  The mistake set after a sequence of finished or exited sessions, each with the time
  of its update.
\<close>

definition run_sessions :: "MistakeRecord list \<Rightarrow> (int \<times> QuizSession) list \<Rightarrow> MistakeRecord list" where
  "run_sessions mistakes evs = foldl (\<lambda>ms e. updateMistakesDatabase (fst e) ms (snd e)) mistakes evs"

text \<open>The record of a question in the mistake set, if it is tracked.\<close>

definition tracked :: "jsstring \<Rightarrow> MistakeRecord list \<Rightarrow> MistakeRecord option" where
  "tracked q mistakes = find (\<lambda>r. qid (question r) = q) mistakes"

text \<open>
  How the tracker itself grades a question in a session, with its own check: \<open>None\<close>
  when the session has no answer for it (or does not hold the question), the cases the
  tracker skips.
\<close>

definition tracker_grade :: "QuizSession \<Rightarrow> jsstring \<Rightarrow> bool option" where
  "tracker_grade s q =
     (case Map_get (answers s) q of
        None \<Rightarrow> None
      | Some userIndices \<Rightarrow>
          (case find (\<lambda>x. qid x = q) (questions s) of
             None \<Rightarrow> None
           | Some quest \<Rightarrow> Some (isRight_tracker (correctIndices quest) userIndices)))"

definition tracker_grades :: "jsstring \<Rightarrow> (int \<times> QuizSession) list \<Rightarrow> bool list" where
  "tracker_grades q evs = List.map_filter (\<lambda>e. tracker_grade (snd e) q) evs"

text \<open>
  Whether a session answers a question correctly, by the comparison that the
  specification asks for and the result view makes: the same elements, whatever their
  order and whether an index is a number or a string. \<open>None\<close> when the session has no
  answer for the question.
\<close>

definition graded :: "QuizSession \<Rightarrow> jsstring \<Rightarrow> bool option" where
  "graded s q =
     (case Map_get (answers s) q of
        None \<Rightarrow> None
      | Some userIndices \<Rightarrow>
          (case find (\<lambda>x. qid x = q) (questions s) of
             None \<Rightarrow> None
           | Some quest \<Rightarrow> Some (isRight_ResultView (correctIndices quest) userIndices)))"

definition grades :: "jsstring \<Rightarrow> (int \<times> QuizSession) list \<Rightarrow> bool list" where
  "grades q evs = List.map_filter (\<lambda>e. graded (snd e) q) evs"

text \<open>
  Sessions as the declared types have them: every index array, of a question and of an
  answer, holds numbers only.
\<close>

fun is_Num :: "index \<Rightarrow> bool" where
  "is_Num (Num n) = True"
| "is_Num (Str s) = False"

definition numeric_session :: "QuizSession \<Rightarrow> bool" where
  "numeric_session s \<longleftrightarrow>
     list_all (\<lambda>q. list_all is_Num (correctIndices q)) (questions s) \<and>
     list_all (\<lambda>e. list_all is_Num (snd e)) (answers s)"

definition numeric_sessions :: "(int \<times> QuizSession) list \<Rightarrow> bool" where
  "numeric_sessions evs \<longleftrightarrow> list_all (\<lambda>e. numeric_session (snd e)) evs"

text \<open>
  A record below mastery: its counter is in the range from 0 up to, and not including,
  the threshold.
\<close>

definition below_mastery :: "MistakeRecord \<Rightarrow> bool" where
  "below_mastery r \<longleftrightarrow> 0 \<le> consecutiveCorrect r \<and> consecutiveCorrect r < MASTERY_THRESHOLD"

text \<open>
  Well-formed inputs: the keys of an object are distinct, and a stored mistake set
  holds one record per question, each below mastery.
\<close>

definition wf_sessions :: "(int \<times> QuizSession) list \<Rightarrow> bool" where
  "wf_sessions evs \<longleftrightarrow> list_all (\<lambda>e. distinct (map fst (answers (snd e)))) evs"

definition wf_mistakes :: "MistakeRecord list \<Rightarrow> bool" where
  "wf_mistakes ms \<longleftrightarrow>
     distinct (map (\<lambda>r. qid (question r)) ms) \<and> list_all below_mastery ms"

text \<open>
  The transitions of one question, on its counter (\<open>None\<close> when the question is not
  tracked), as \<open>tracker_step\<close> makes them for an answer graded right or wrong.
\<close>

fun mastery_step :: "int option \<Rightarrow> bool \<Rightarrow> int option" where
  "mastery_step None True = None"
| "mastery_step None False = Some 0"
| "mastery_step (Some c) True = (if c + 1 \<ge> MASTERY_THRESHOLD then None else Some (c + 1))"
| "mastery_step (Some c) False = Some 0"

definition counter_of :: "jsstring \<Rightarrow> MistakeRecord list \<Rightarrow> int option" where
  "counter_of q mistakes = map_option consecutiveCorrect (tracked q mistakes)"

subsection \<open>Example data\<close>

definition example_question :: Question where
  "example_question =
     \<lparr>qid = js ''q-1-0'', qtext = js ''2 + 2 = ?'', options = [js ''3'', js ''4''],
      correctIndices = [Num 1], explanation = js ''arithmetic'', qtype = SINGLE\<rparr>"

definition example_session :: "index list \<Rightarrow> QuizSession" where
  "example_session answer =
     \<lparr>sid = js ''1'', bankName = js ''Bank'', questions = [example_question],
      currentQuestionIndex = 0, answers = [(js ''q-1-0'', answer)], status = Finished,
      startTime = 0, timeRemaining = 0,
      config = \<lparr>enableTimer = False, timeLimit = 0, instantFeedback = True\<rparr>,
      lastUpdated = 0\<rparr>"

section \<open>Starting a session (App.tsx)\<close>

text \<open>
  \<^verbatim>\<open>startExam\<close> and \<^verbatim>\<open>startMistakeReview\<close>. The shuffle
  (\<^verbatim>\<open>sort(() => Math.random() - 0.5)\<close>) is the parameter \<open>shuffle\<close>, \<open>now\<close> is
  \<^verbatim>\<open>Date.now()\<close>, and the rest of the component's state comes as arguments. With no
  selected bank left, \<^verbatim>\<open>selectedBanks[0].name\<close> throws.
\<close>

definition startExam ::
  "int \<Rightarrow> (Question list \<Rightarrow> Question list) \<Rightarrow> QuestionBank list \<Rightarrow> jsstring list \<Rightarrow> int \<Rightarrow> bool
     \<Rightarrow> error + QuizSession" where
  "startExam now shuffle banks selectedBankIds timeLimitInput instantFeedbackInput =
     (let selectedBanks = filter (\<lambda>b. Set_has selectedBankIds (bid b)) banks;
          allQuestions = shuffle (concat (map bquestions selectedBanks));
          limitSeconds = (if timeLimitInput > 0 then timeLimitInput * 60 else 0)
      in case selectedBanks of
           [] \<Rightarrow> Inl TypeError
         | b # bs \<Rightarrow>
             (let displayTitle =
                    (if length selectedBanks > 1
                     then bname b @ js '' + '' @ String_int (int (length selectedBanks) - 1) @ js '' others''
                     else bname b)
              in Inr \<lparr>sid = String_int now, bankName = displayTitle, questions = allQuestions,
                      currentQuestionIndex = 0, answers = [], status = Active, startTime = now,
                      timeRemaining = (if limitSeconds > 0 then limitSeconds else 0),
                      config = \<lparr>enableTimer = (limitSeconds > 0), timeLimit = limitSeconds,
                                instantFeedback = instantFeedbackInput\<rparr>,
                      lastUpdated = now\<rparr>))"

definition startMistakeReview ::
  "int \<Rightarrow> (Question list \<Rightarrow> Question list) \<Rightarrow> MistakeRecord list \<Rightarrow> QuizSession option" where
  "startMistakeReview now shuffle mistakes =
     (if length mistakes = 0 then None
      else Some \<lparr>sid = String_int now, bankName = js ''Mistake Notebook Review'',
                 questions = shuffle (map question mistakes),
                 currentQuestionIndex = 0, answers = [], status = Active, startTime = now,
                 timeRemaining = 0,
                 config = \<lparr>enableTimer = False, timeLimit = 0, instantFeedback = True\<rparr>,
                 lastUpdated = now\<rparr>)"

section \<open>The quiz view (QuizView)\<close>

text \<open>
  The component's state: the \<^verbatim>\<open>session\<close> prop, which the parent replaces on
  \<^verbatim>\<open>onUpdateSession\<close>, and the local \<^verbatim>\<open>useState\<close> cells. \<open>completed\<close> records that
  \<^verbatim>\<open>onComplete\<close> was called: the parent then shows the result view and the quiz view
  is gone.
\<close>

record QuizView =
  session :: QuizSession
  draftSelection :: "index list"
  isSubmitted :: bool
  isSubmitting :: bool
  localTimeRemaining :: int
  showExplanationText :: bool
  completed :: bool

text \<open>
  \<^verbatim>\<open>session.questions[session.currentQuestionIndex]\<close>; the render reads \<^verbatim>\<open>currentQ.id\<close>,
  which throws when the index is out of range.
\<close>

definition currentQ :: "QuizSession \<Rightarrow> error + Question" where
  "currentQ s =
     (if currentQuestionIndex s < length (questions s)
      then Inr (questions s ! currentQuestionIndex s) else Inl TypeError)"

text \<open>
  The effect with dependencies \<^verbatim>\<open>[currentQ.id, session.answers]\<close>. An entry of the answer
  map is an array, which is truthy also when empty, so \<^verbatim>\<open>hasAnswer\<close> is the presence of
  the entry.
\<close>

definition sync_effect :: "Question \<Rightarrow> QuizView \<Rightarrow> QuizView" where
  "sync_effect q v =
     (let entry = Map_get (answers (session v)) (qid q);
          hasAnswer = (entry \<noteq> None)
      in v\<lparr>isSubmitted := hasAnswer,
            isSubmitting := (if hasAnswer then False else isSubmitting v),
            draftSelection := (case entry of Some a \<Rightarrow> a | None \<Rightarrow> []),
            showExplanationText := (if \<not> hasAnswer then True else showExplanationText v)\<rparr>)"

text \<open>
  Mounting the view on a session: the initial values of the state cells, then the
  effect.
\<close>

definition mount :: "QuizSession \<Rightarrow> error + QuizView" where
  "mount s =
     (case currentQ s of
        Inl e \<Rightarrow> Inl e
      | Inr q \<Rightarrow>
          Inr (sync_effect q
                 \<lparr>session = s,
                  draftSelection = (case Map_get (answers s) (qid q) of Some a \<Rightarrow> a | None \<Rightarrow> []),
                  isSubmitted = (Map_get (answers s) (qid q) \<noteq> None),
                  isSubmitting = False,
                  localTimeRemaining = timeRemaining s,
                  showExplanationText = True,
                  completed = False\<rparr>))"

text \<open>
  The parent stores the new session and the view renders again; the effect runs when
  the id of the current question changed or \<^verbatim>\<open>session.answers\<close> is a new object
  (\<open>answersReplaced\<close>: only \<^verbatim>\<open>confirmAnswer\<close> builds one).
\<close>

definition rerender :: "bool \<Rightarrow> QuizView \<Rightarrow> QuizSession \<Rightarrow> error + QuizView" where
  "rerender answersReplaced v s' =
     (case currentQ (session v) of
        Inl e \<Rightarrow> Inl e
      | Inr old \<Rightarrow>
          (case currentQ s' of
             Inl e \<Rightarrow> Inl e
           | Inr q \<Rightarrow>
               (let v' = v\<lparr>session := s'\<rparr>
                in Inr (if qid q \<noteq> qid old \<or> answersReplaced then sync_effect q v' else v'))))"

definition updateSessionSafe :: "QuizView \<Rightarrow> (QuizSession \<Rightarrow> QuizSession) \<Rightarrow> QuizSession" where
  "updateSessionSafe v updates = (updates (session v))\<lparr>timeRemaining := localTimeRemaining v\<rparr>"

definition handleDraftSelect :: "nat \<Rightarrow> QuizView \<Rightarrow> error + QuizView" where
  "handleDraftSelect idx v =
     (case currentQ (session v) of
        Inl e \<Rightarrow> Inl e
      | Inr q \<Rightarrow>
          if isSubmitted v then Inr v
          else if qtype q = MULTIPLE then
            Inr (v\<lparr>draftSelection :=
                     (if Num (int idx) \<in> set (draftSelection v)
                      then filter (\<lambda>i. i \<noteq> Num (int idx)) (draftSelection v)
                      else draftSelection v @ [Num (int idx)])\<rparr>)
          else Inr (v\<lparr>draftSelection := [Num (int idx)]\<rparr>))"

definition confirmAnswer :: "QuizView \<Rightarrow> error + QuizView" where
  "confirmAnswer v =
     (if length (draftSelection v) = 0 then Inr v
      else
        (case currentQ (session v) of
           Inl e \<Rightarrow> Inl e
         | Inr q \<Rightarrow>
             (let newAnswers = Map_set (answers (session v)) (qid q) (draftSelection v)
              in rerender True (v\<lparr>isSubmitting := True\<rparr>)
                   (updateSessionSafe v (\<lambda>s. s\<lparr>answers := newAnswers\<rparr>)))))"

definition handleNext :: "QuizView \<Rightarrow> error + QuizView" where
  "handleNext v =
     (let s = session v; totalQ = length (questions s)
      in if int (currentQuestionIndex s) < int totalQ - 1
         then rerender False v
                (updateSessionSafe v (\<lambda>s. s\<lparr>currentQuestionIndex := currentQuestionIndex s + 1\<rparr>))
         else Inr (v\<lparr>session := s\<lparr>status := Finished, timeRemaining := localTimeRemaining v\<rparr>,
                     completed := True\<rparr>))"

definition handlePrev :: "QuizView \<Rightarrow> error + QuizView" where
  "handlePrev v =
     (if currentQuestionIndex (session v) > 0
      then rerender False v
             (updateSessionSafe v (\<lambda>s. s\<lparr>currentQuestionIndex := currentQuestionIndex s - 1\<rparr>))
      else Inr v)"

definition handleSkip :: "QuizView \<Rightarrow> error + QuizView" where
  "handleSkip v = handleNext v"

text \<open>The timer's tick, which runs while the session is active.\<close>

definition tick :: "QuizView \<Rightarrow> QuizView" where
  "tick v =
     (if status (session v) \<noteq> Active then v
      else (let prev = localTimeRemaining v; c = config (session v)
            in v\<lparr>localTimeRemaining :=
                    (if enableTimer c \<and> timeLimit c > 0
                     then (if prev \<le> 1 then 0 else prev - 1)
                     else prev - 1)\<rparr>))"

text \<open>
  What the user and the timer can do. A click reaches its handler only when the button
  is rendered and enabled: an option while the question is neither submitted nor
  being submitted; Submit while not submitted, with a non-empty draft; Next once
  submitted; Skip while not submitted; Previous away from the first question; a
  navigator button for each question of the session; the switch of the explanation
  once submitted, with instant feedback. After \<^verbatim>\<open>onComplete\<close> no button
  of the view is left.
\<close>

datatype event =
  ClickOption nat | ClickSubmit | ClickNext | ClickSkip | ClickPrevious | ClickNavigator nat
  | ClickLibrary | ClickExplanation | Tick

definition dispatch :: "QuizView \<Rightarrow> event \<Rightarrow> error + QuizView" where
  "dispatch v ev =
     (if completed v then Inr v
      else
        (case currentQ (session v) of
           Inl e \<Rightarrow> Inl e
         | Inr q \<Rightarrow>
             (case ev of
                ClickOption idx \<Rightarrow>
                  if idx < length (options q) \<and> \<not> (isSubmitted v \<or> isSubmitting v)
                  then handleDraftSelect idx v else Inr v
              | ClickSubmit \<Rightarrow>
                  if \<not> isSubmitted v \<and> \<not> (length (draftSelection v) = 0 \<or> isSubmitting v)
                  then confirmAnswer v else Inr v
              | ClickNext \<Rightarrow> if isSubmitted v then handleNext v else Inr v
              | ClickSkip \<Rightarrow> if \<not> isSubmitted v \<and> \<not> isSubmitting v then handleSkip v else Inr v
              | ClickPrevious \<Rightarrow>
                  if \<not> (currentQuestionIndex (session v) = 0 \<or> isSubmitting v)
                  then handlePrev v else Inr v
              | ClickNavigator idx \<Rightarrow>
                  if idx < length (questions (session v)) \<and> \<not> isSubmitting v
                  then rerender False v (updateSessionSafe v (\<lambda>s. s\<lparr>currentQuestionIndex := idx\<rparr>))
                  else Inr v
              | ClickLibrary \<Rightarrow> rerender False v (updateSessionSafe v (\<lambda>s. s))
              | ClickExplanation \<Rightarrow>
                  if isSubmitted v \<and> instantFeedback (config (session v))
                  then Inr (v\<lparr>showExplanationText := \<not> showExplanationText v\<rparr>) else Inr v
              | Tick \<Rightarrow> Inr (tick v))))"

fun run_events :: "QuizView \<Rightarrow> event list \<Rightarrow> error + QuizView" where
  "run_events v [] = Inr v"
| "run_events v (ev # evs) =
     (case dispatch v ev of Inl e \<Rightarrow> Inl e | Inr v' \<Rightarrow> run_events v' evs)"

text \<open>
  The view is in step with its session: the index is in range and, while the view is
  there, \<^verbatim>\<open>isSubmitted\<close> says whether the current question has an entry.
\<close>

definition view_ok :: "QuizView \<Rightarrow> bool" where
  "view_ok v \<longleftrightarrow>
     currentQuestionIndex (session v) < length (questions (session v)) \<and>
     (\<not> completed v \<longrightarrow>
        (isSubmitted v \<longleftrightarrow>
           Map_get (answers (session v))
             (qid (questions (session v) ! currentQuestionIndex (session v))) \<noteq> None))"

definition answers_kept :: "QuizSession \<Rightarrow> QuizSession \<Rightarrow> bool" where
  "answers_kept s s' \<longleftrightarrow>
     (\<forall>k a. Map_get (answers s) k = Some a \<longrightarrow> Map_get (answers s') k = Some a)"

definition answers_nonempty :: "QuizSession \<Rightarrow> bool" where
  "answers_nonempty s \<longleftrightarrow> list_all (\<lambda>e. snd e \<noteq> []) (answers s)"

text \<open>
  The answer map of a session after the view was mounted on it and the events ran.
\<close>

definition answers_after :: "QuizSession \<Rightarrow> event list \<Rightarrow> error + (jsstring \<times> index list) list" where
  "answers_after s evs =
     (case mount s of
        Inl e \<Rightarrow> Inl e
      | Inr v \<Rightarrow> (case run_events v evs of Inl e \<Rightarrow> Inl e | Inr v' \<Rightarrow> Inr (answers (session v'))))"

subsection \<open>Example data\<close>

definition example_question2 :: Question where
  "example_question2 =
     \<lparr>qid = js ''q-1-1'', qtext = js ''Which are even?'', options = [js ''2'', js ''3'', js ''4''],
      correctIndices = [Num 0, Num 2], explanation = js ''parity'', qtype = MULTIPLE\<rparr>"

definition example_bank :: QuestionBank where
  "example_bank =
     \<lparr>bid = js ''1'', bname = js ''Bank'', createdAt = 1,
      bquestions = [example_question, example_question2]\<rparr>"

definition example_question3 :: Question where
  "example_question3 =
     \<lparr>qid = js ''q-2-0'', qtext = js ''Which are odd?'', options = [js ''1'', js ''3'', js ''4''],
      correctIndices = [Str (js ''1''), Str (js ''0'')], explanation = js ''parity'',
      qtype = MULTIPLE\<rparr>"

definition example_session3 :: QuizSession where
  "example_session3 =
     \<lparr>sid = js ''2'', bankName = js ''Bank'', questions = [example_question3],
      currentQuestionIndex = 0, answers = [(js ''q-2-0'', [Num 0, Num 1])], status = Finished,
      startTime = 0, timeRemaining = 0,
      config = \<lparr>enableTimer = False, timeLimit = 0, instantFeedback = True\<rparr>,
      lastUpdated = 0\<rparr>"

definition example_exam :: QuizSession where
  "example_exam =
     \<lparr>sid = js ''7'', bankName = js ''Bank'', questions = [example_question, example_question2],
      currentQuestionIndex = 0, answers = [], status = Active, startTime = 7,
      timeRemaining = 0,
      config = \<lparr>enableTimer = False, timeLimit = 0, instantFeedback = True\<rparr>,
      lastUpdated = 7\<rparr>"

definition example_review :: QuizSession where
  "example_review =
     \<lparr>sid = js ''9'', bankName = js ''Mistake Notebook Review'', questions = [example_question],
      currentQuestionIndex = 0, answers = [], status = Active, startTime = 9,
      timeRemaining = 0,
      config = \<lparr>enableTimer = False, timeLimit = 0, instantFeedback = True\<rparr>,
      lastUpdated = 9\<rparr>"

section \<open>Properties of the text chunker\<close>

lemma trim_empty_iff: "trim s = [] \<longleftrightarrow> (\<forall>c \<in> set s. is_ws c)"
proof
  assume "trim s = []"
  then have a: "\<forall>x \<in> set (dropWhile is_ws s). is_ws x"
    by (simp add: trim_def)
  have "dropWhile is_ws s = []"
  proof (rule ccontr)
    assume n: "dropWhile is_ws s \<noteq> []"
    then have "\<not> is_ws (hd (dropWhile is_ws s))" by (rule hd_dropWhile)
    moreover have "hd (dropWhile is_ws s) \<in> set (dropWhile is_ws s)" using n by simp
    ultimately show False using a by blast
  qed
  then show "\<forall>c \<in> set s. is_ws c" by simp
next
  assume "\<forall>c \<in> set s. is_ws c"
  then have d: "dropWhile is_ws s = []" by simp
  show "trim s = []" by (simp only: trim_def d dropWhile.simps rev.simps)
qed

lemma trim_unlines_blank:
  assumes "trim (unlines cl) = []" shows "filter nonblank cl = []"
proof -
  from assms have "\<forall>c \<in> set (unlines cl). is_ws c" by (simp add: trim_empty_iff)
  then have "\<forall>l \<in> set cl. \<forall>c \<in> set l. is_ws c" by (auto simp: unlines_def split: if_splits)
  then show ?thesis by (simp add: filter_empty_conv nonblank_def trim_empty_iff)
qed

lemma unlines_append: "unlines (xs @ ys) = unlines xs @ unlines ys"
  by (simp add: unlines_def)

lemma chunk_loop_lines:
  assumes "chunk_loop n lines (chunks, unlines cl) = (chunks', cur')"
  shows "\<exists>ks cl'. concat chunks' = concat chunks @ unlines ks \<and> cur' = unlines cl' \<and>
           subseq (ks @ cl') (cl @ lines) \<and>
           filter nonblank (ks @ cl') = filter nonblank (cl @ lines)"
  using assms
proof (induction lines arbitrary: chunks cl)
  case Nil
  then have "concat chunks' = concat chunks @ unlines []" "cur' = unlines cl"
    by (simp_all add: unlines_def)
  then show ?case by (metis append_Nil append_Nil2 subseq_order.order_refl)
next
  case (Cons line lines)
  have one: "line @ [nl] = unlines [line]" by (simp add: unlines_def)
  show ?case
  proof (cases "int (length (unlines cl @ line)) > n")
    case False
    with Cons.prems have "chunk_loop n lines (chunks, unlines (cl @ [line])) = (chunks', cur')"
      by (simp add: unlines_append one)
    from Cons.IH[OF this] show ?thesis by simp
  next
    case over: True
    show ?thesis
    proof (cases "trim (unlines cl) \<noteq> []")
      case True
      with over Cons.prems
      have "chunk_loop n lines (chunks @ [unlines cl], unlines [line]) = (chunks', cur')"
        by (simp add: one)
      from Cons.IH[OF this] obtain ks cl' where
        k: "concat chunks' = concat (chunks @ [unlines cl]) @ unlines ks" "cur' = unlines cl'"
           "subseq (ks @ cl') ([line] @ lines)"
           "filter nonblank (ks @ cl') = filter nonblank ([line] @ lines)"
        by blast
      have "concat chunks' = concat chunks @ unlines (cl @ ks)"
        using k(1) by (simp add: unlines_append)
      moreover have "subseq ((cl @ ks) @ cl') (cl @ line # lines)"
        using k(3) list_emb_append_mono[of "(=)" cl cl "ks @ cl'" "line # lines"] by simp
      moreover have "filter nonblank ((cl @ ks) @ cl') = filter nonblank (cl @ line # lines)"
        using k(4) by simp
      ultimately show ?thesis using k(2) by blast
    next
      case False
      then have blank: "filter nonblank cl = []" by (simp add: trim_unlines_blank)
      from False over Cons.prems
      have "chunk_loop n lines (chunks, unlines [line]) = (chunks', cur')"
        by (simp add: one)
      from Cons.IH[OF this] obtain ks cl' where
        k: "concat chunks' = concat chunks @ unlines ks" "cur' = unlines cl'"
           "subseq (ks @ cl') ([line] @ lines)"
           "filter nonblank (ks @ cl') = filter nonblank ([line] @ lines)"
        by blast
      have "subseq (ks @ cl') (cl @ line # lines)"
        using k(3) by (simp add: list_emb_append2)
      moreover have "filter nonblank (ks @ cl') = filter nonblank (cl @ line # lines)"
        using k(4) blank by simp
      ultimately show ?thesis using k(1,2) by blast
    qed
  qed
qed


lemma within_budget_short: "int (length c) \<le> n + 1 \<Longrightarrow> within_budget n all c"
  by (simp add: within_budget_def)

lemma within_budget_long:
  "l \<in> set all \<Longrightarrow> int (length l) > n \<Longrightarrow> within_budget n all (l @ [nl])"
  unfolding within_budget_def by blast

lemma trim_nonempty: "trim s \<noteq> [] \<Longrightarrow> s \<noteq> []"
  by (auto simp: trim_def)

lemma chunk_loop_bound:
  assumes "chunk_loop n lines (chunks, cur) = (chunks', cur')"
    and "\<forall>c \<in> set chunks. within_budget n all c"
    and "cur \<noteq> [] \<longrightarrow> within_budget n all cur"
    and "set lines \<subseteq> set all"
  shows "(\<forall>c \<in> set chunks'. within_budget n all c) \<and> (cur' \<noteq> [] \<longrightarrow> within_budget n all cur')"
  using assms
proof (induction lines arbitrary: chunks cur)
  case Nil
  then show ?case by simp
next
  case (Cons line lines)
  have sub: "set lines \<subseteq> set all" and mem: "line \<in> set all"
    using Cons.prems(4) by simp_all
  show ?case
  proof (cases "int (length (cur @ line)) > n")
    case False
    then have "within_budget n all (cur @ line @ [nl])"
      by (intro within_budget_short) simp
    then have w: "cur @ line @ [nl] \<noteq> [] \<longrightarrow> within_budget n all (cur @ line @ [nl])" by blast
    from False Cons.prems(1)
    have r: "chunk_loop n lines (chunks, cur @ line @ [nl]) = (chunks', cur')" by simp
    show ?thesis by (rule Cons.IH[OF r Cons.prems(2) w sub])
  next
    case over: True
    have pl: "within_budget n all (line @ [nl])"
    proof (cases "int (length line) > n")
      case True
      with mem show ?thesis by (rule within_budget_long)
    next
      case False
      then show ?thesis by (intro within_budget_short) simp
    qed
    then have w: "line @ [nl] \<noteq> [] \<longrightarrow> within_budget n all (line @ [nl])" by blast
    let ?chunks1 = "if trim cur \<noteq> [] then chunks @ [cur] else chunks"
    have c1: "\<forall>c \<in> set ?chunks1. within_budget n all c"
    proof (cases "trim cur \<noteq> []")
      case True
      then have "within_budget n all cur" using Cons.prems(3) trim_nonempty by blast
      with True Cons.prems(2) show ?thesis by simp
    next
      case False
      with Cons.prems(2) show ?thesis by simp
    qed
    from over Cons.prems(1)
    have r: "chunk_loop n lines (?chunks1, line @ [nl]) = (chunks', cur')" by simp
    show ?thesis by (rule Cons.IH[OF r c1 w sub])
  qed
qed

lemma chunkText_bound:
  "\<forall>c \<in> set (chunkText t n). within_budget n (split_nl t) c"
proof -
  obtain chunks' cur' where r: "chunk_loop n (split_nl t) ([], []) = (chunks', cur')"
    by (cases "chunk_loop n (split_nl t) ([], [])")
  have b: "(\<forall>c \<in> set chunks'. within_budget n (split_nl t) c) \<and>
        (cur' \<noteq> [] \<longrightarrow> within_budget n (split_nl t) cur')"
    by (rule chunk_loop_bound[OF r]) simp_all
  show ?thesis
  proof (cases "trim cur' \<noteq> []")
    case True
    then have "within_budget n (split_nl t) cur'" using b trim_nonempty by blast
    with True b r show ?thesis by (simp add: chunkText_def)
  next
    case False
    with b r show ?thesis by (simp add: chunkText_def)
  qed
qed

text \<open>
  A consequence for the single lines: the chunks hold a subsequence of the lines, and
  every line with a character other than white space is in it.
\<close>

lemma chunkText_subseq_lines:
  "\<exists>ks. concat (chunkText t n) = unlines ks \<and> subseq ks (split_nl t) \<and>
        filter nonblank ks = filter nonblank (split_nl t)"
proof -
  obtain chunks' cur' where r: "chunk_loop n (split_nl t) ([], unlines []) = (chunks', cur')"
    by (cases "chunk_loop n (split_nl t) ([], unlines [])")
  from chunk_loop_lines[OF r] obtain ks cl' where
    k: "concat chunks' = unlines ks" "cur' = unlines cl'" "subseq (ks @ cl') (split_nl t)"
       "filter nonblank (ks @ cl') = filter nonblank (split_nl t)"
    by auto
  have r': "chunk_loop n (split_nl t) ([], []) = (chunks', cur')"
    using r by (simp add: unlines_def)
  show ?thesis
  proof (cases "trim cur' \<noteq> []")
    case True
    then have "concat (chunkText t n) = unlines (ks @ cl')"
      using r' k(1,2) by (simp add: chunkText_def unlines_append)
    with k(3,4) show ?thesis by blast
  next
    case False
    then have c: "concat (chunkText t n) = unlines ks"
      using r' k(1) by (simp add: chunkText_def)
    from False k(2) have "filter nonblank cl' = []" by (simp add: trim_unlines_blank)
    then have f: "filter nonblank ks = filter nonblank (split_nl t)" using k(4) by simp
    have "subseq ks (ks @ cl')" by (rule prefix_imp_subseq) simp
    then have "subseq ks (split_nl t)" using k(3) by (rule subseq_order.order_trans)
    with c f show ?thesis by blast
  qed
qed

text \<open>The chunks are the texts of the runs of lines, without the runs that are not emitted.\<close>

lemma unlines_concat: "unlines (concat gs) = concat (map unlines gs)"
  by (induction gs) (simp_all add: unlines_def)

lemma group_loop_chunks:
  assumes "chunk_loop n lines (map unlines (filter emitted gs), unlines cur) = (chunks', cur')"
    and "group_loop n lines (gs, cur) = (gs', c')"
  shows "chunks' = map unlines (filter emitted gs') \<and> cur' = unlines c'"
  using assms
proof (induction lines arbitrary: gs cur)
  case Nil
  then show ?case by simp
next
  case (Cons line lines)
  have one: "line @ [nl] = unlines [line]" by (simp add: unlines_def)
  show ?case
  proof (cases "int (length (unlines cur @ line)) > n")
    case False
    from False Cons.prems(1)
    have c: "chunk_loop n lines (map unlines (filter emitted gs), unlines (cur @ [line])) = (chunks', cur')"
      by (simp add: unlines_append one)
    from False Cons.prems(2) have g: "group_loop n lines (gs, cur @ [line]) = (gs', c')" by simp
    show ?thesis by (rule Cons.IH[OF c g])
  next
    case over: True
    let ?pushed = "if cur \<noteq> [] then gs @ [cur] else gs"
    have push: "(if trim (unlines cur) \<noteq> []
                 then map unlines (filter emitted gs) @ [unlines cur]
                 else map unlines (filter emitted gs)) = map unlines (filter emitted ?pushed)"
    proof (cases "cur = []")
      case True
      then show ?thesis by (simp add: unlines_def trim_def)
    next
      case False
      then show ?thesis by (simp add: emitted_def)
    qed
    from over Cons.prems(1)
    have "chunk_loop n lines
            (if trim (unlines cur) \<noteq> []
             then map unlines (filter emitted gs) @ [unlines cur]
             else map unlines (filter emitted gs), unlines [line]) = (chunks', cur')"
      by (simp add: one)
    then have c: "chunk_loop n lines (map unlines (filter emitted ?pushed), unlines [line]) = (chunks', cur')"
      by (simp only: push)
    from over Cons.prems(2) have g: "group_loop n lines (?pushed, [line]) = (gs', c')" by simp
    show ?thesis by (rule Cons.IH[OF c g])
  qed
qed

lemma group_loop_concat:
  "group_loop n lines (gs, cur) = (gs', c') \<Longrightarrow> concat gs' @ c' = concat gs @ cur @ lines"
proof (induction lines arbitrary: gs cur)
  case Nil
  then show ?case by simp
next
  case (Cons line lines)
  show ?case
  proof (cases "int (length (unlines cur @ line)) > n")
    case False
    with Cons.prems have "group_loop n lines (gs, cur @ [line]) = (gs', c')" by simp
    from Cons.IH[OF this] show ?thesis by simp
  next
    case True
    with Cons.prems
    have "group_loop n lines (if cur \<noteq> [] then gs @ [cur] else gs, [line]) = (gs', c')" by simp
    from Cons.IH[OF this] show ?thesis by (simp split: if_splits)
  qed
qed

lemma line_groups_concat: "concat (line_groups n lines) = lines"
proof -
  obtain gs' c' where g: "group_loop n lines ([], []) = (gs', c')"
    by (cases "group_loop n lines ([], [])")
  from group_loop_concat[OF g] have "concat gs' @ c' = lines" by simp
  with g show ?thesis by (auto simp: line_groups_def)
qed

lemma group_loop_nonempty:
  "group_loop n lines (gs, cur) = (gs', c') \<Longrightarrow> [] \<notin> set gs \<Longrightarrow> [] \<notin> set gs'"
proof (induction lines arbitrary: gs cur)
  case Nil
  then show ?case by simp
next
  case (Cons line lines)
  show ?case
  proof (cases "int (length (unlines cur @ line)) > n")
    case False
    with Cons.prems(1) have "group_loop n lines (gs, cur @ [line]) = (gs', c')" by simp
    from Cons.IH[OF this Cons.prems(2)] show ?thesis .
  next
    case True
    with Cons.prems(1)
    have g: "group_loop n lines (if cur \<noteq> [] then gs @ [cur] else gs, [line]) = (gs', c')" by simp
    have "[] \<notin> set (if cur \<noteq> [] then gs @ [cur] else gs)" using Cons.prems(2) by simp
    from Cons.IH[OF g this] show ?thesis .
  qed
qed

text \<open>No run is empty.\<close>

lemma line_groups_nonempty: "[] \<notin> set (line_groups n lines)"
proof -
  obtain gs' c' where g: "group_loop n lines ([], []) = (gs', c')"
    by (cases "group_loop n lines ([], [])")
  from group_loop_nonempty[OF g] have "[] \<notin> set gs'" by simp
  with g show ?thesis by (auto simp: line_groups_def)
qed

lemma chunkText_groups:
  "chunkText t n = map unlines (filter emitted (line_groups n (split_nl t)))"
proof -
  obtain gs' c' where g: "group_loop n (split_nl t) ([], []) = (gs', c')"
    by (cases "group_loop n (split_nl t) ([], [])")
  obtain chunks' cur' where c: "chunk_loop n (split_nl t) ([], []) = (chunks', cur')"
    by (cases "chunk_loop n (split_nl t) ([], [])")
  then have "chunk_loop n (split_nl t) (map unlines (filter emitted []), unlines []) = (chunks', cur')"
    by (simp add: unlines_def)
  from group_loop_chunks[OF this g]
  have r: "chunks' = map unlines (filter emitted gs')" "cur' = unlines c'" by simp_all
  show ?thesis
  proof (cases "c' = []")
    case True
    with r have "trim cur' = []" by (simp add: unlines_def trim_def)
    with c g r True show ?thesis by (simp add: chunkText_def line_groups_def)
  next
    case False
    with c g r show ?thesis by (simp add: chunkText_def line_groups_def emitted_def)
  qed
qed

text \<open>When every run is emitted, the chunks reproduce the line sequence exactly.\<close>

lemma chunkText_exact:
  assumes "list_all emitted (line_groups n (split_nl t))"
  shows "concat (chunkText t n) = unlines (split_nl t)"
proof -
  from assms have "filter emitted (line_groups n (split_nl t)) = line_groups n (split_nl t)"
    by (simp add: list_all_iff)
  then have "concat (chunkText t n) = concat (map unlines (line_groups n (split_nl t)))"
    by (simp add: chunkText_groups)
  then show ?thesis by (simp add: unlines_concat[symmetric] line_groups_concat)
qed

text \<open>
  A blank line inside a run that is emitted stays: the text of the three lines
  \<open>''a''\<close>, the empty line and \<open>''b''\<close> is one chunk with all three.
\<close>

lemma chunkText_keeps_inner_blank:
  "chunkText (js ''a\<newline>\<newline>b'') 100 = [js ''a\<newline>\<newline>b\<newline>'']"
  by code_simp

text \<open>
  Claim C2, as amended. The lines of the text fall into consecutive runs, which together
  are the whole line sequence; the chunks are, in order, the texts of those runs (each
  line unaltered and followed by its newline), except the runs that hold white space
  only, which are not emitted. So the chunks, concatenated in order, reproduce the line
  sequence with the lines of the runs that are not emitted left out, and nothing else
  is left out or altered.
\<close>

theorem chunkText_line_groups:
  "concat (line_groups n (split_nl t)) = split_nl t \<and>
   chunkText t n = map unlines (filter emitted (line_groups n (split_nl t))) \<and>
   concat (chunkText t n) = unlines (concat (filter emitted (line_groups n (split_nl t))))"
  by (simp add: line_groups_concat chunkText_groups unlines_concat)

text \<open>
  Claim C2, as stated, fails: the concatenation of the chunks is not always the original
  line sequence. With a budget of 3 the text of the two lines \<open>'' ''\<close> and \<open>''abc''\<close>
  gives the single chunk of the line \<open>''abc''\<close>; the first line, a run by itself that
  is not emitted, is gone.
\<close>

theorem chunkText_drops_blank_line:
  "concat (chunkText (js '' \<newline>abc'') 3) \<noteq> unlines (split_nl (js '' \<newline>abc''))"
  by code_simp

text \<open>
  Claim C3: every chunk is at most as long as the budget, unless it is a single line
  longer than the budget. The loop tests the length of \<^verbatim>\<open>currentChunk + line\<close> and then
  appends the line with a newline that the test did not count: with a budget of 5 the
  text of the two lines \<open>''ab''\<close> and \<open>''cd''\<close> gives one chunk of both lines, of
  length 6.
\<close>

theorem chunkText_over_budget:
  "chunkText (js ''ab\<newline>cd'') 5 = [js ''ab\<newline>cd\<newline>''] \<and>
   split_nl (js ''ab\<newline>cd'') = [js ''ab'', js ''cd''] \<and>
   int (length (js ''ab\<newline>cd\<newline>'')) = 6"
  by code_simp

section \<open>Properties of the grading checks\<close>

lemma foldl_Set_add: "set (foldl Set_add s xs) = set s \<union> set xs \<and> (distinct s \<longrightarrow> distinct (foldl Set_add s xs))"
  by (induction xs arbitrary: s) (auto simp: Set_add_def)

lemma set_new_Set: "set (new_Set xs) = set xs"
  using foldl_Set_add[of "[]" xs] by (simp add: new_Set_def)

lemma distinct_new_Set: "distinct (new_Set xs)"
  using foldl_Set_add[of "[]" xs] by (simp add: new_Set_def)

lemma size_new_Set: "length (new_Set xs) = card (set xs)"
  using distinct_card[OF distinct_new_Set, of xs] by (simp add: set_new_Set)

lemma has_loop: "foldl (\<lambda>r a. if \<not> Set_has u a then False else r) b cs = (b \<and> set cs \<subseteq> set u)"
  by (induction cs arbitrary: b) (auto simp: Set_has_def)

lemma all_in_iff: "all_in cs u = (set cs \<subseteq> set u)"
  by (induction cs) (auto simp: Set_has_def)

lemma same_size_subset: "(card (set xs) = card (set ys) \<and> set xs \<subseteq> set ys) = (set xs = set ys)"
  by (metis List.finite_set card_subset_eq subset_refl)

lemma isRight_tracker_iff: "isRight_tracker correct user = (set correct = set user)"
  using same_size_subset[of correct user]
  by (auto simp: isRight_tracker_def Let_def has_loop size_new_Set set_new_Set)

lemma isRight_ResultView_iff:
  "isRight_ResultView correct user = (set (map String_js correct) = set (map String_js user))"
  using same_size_subset[of "map String_js correct" "map String_js user"]
  by (auto simp: isRight_ResultView_def Let_def has_loop size_new_Set set_new_Set simp del: set_map)

lemma isDraftCorrect_iff:
  "isDraftCorrect True correct draft = (set (map String_js correct) = set (map String_js draft))"
  using same_size_subset[of "map String_js correct" "map String_js draft"]
  by (auto simp: isDraftCorrect_def Let_def all_in_iff size_new_Set set_new_Set simp del: set_map)

text \<open>
  \<^verbatim>\<open>String\<close> is injective on numbers, so on arrays of numbers, the declared type, the
  tracker's check and the check of the other places agree.
\<close>

lemma decimal_value_snoc: "decimal_value (s @ [c]) = 10 * decimal_value s + unat (c - 0x30)"
  by (simp add: decimal_value_def)

lemma small_unat: "d < 10 \<Longrightarrow> unat (of_nat d :: 16 word) = d"
  by (rule of_nat_inverse[OF refl]) simp

lemma digit_unat: "d < 10 \<Longrightarrow> unat ((0x30 + of_nat d :: 16 word) - 0x30) = d"
  by (simp add: small_unat)

lemma decimal_value_digits: "decimal_value (digits n) = n"
proof (induction n rule: digits.induct)
  case (1 n)
  show ?case
  proof (cases "n < 10")
    case True
    then have "digits n = [0x30 + of_nat n]" by (subst digits.simps) simp
    with digit_unat[OF True] show ?thesis by (simp add: decimal_value_def)
  next
    case False
    then have d: "digits n = digits (n div 10) @ [0x30 + of_nat (n mod 10)]"
      by (subst digits.simps) simp
    have "n mod 10 < 10" by simp
    then have "unat ((0x30 + of_nat (n mod 10) :: 16 word) - 0x30) = n mod 10" by (rule digit_unat)
    with 1[OF False] show ?thesis unfolding d decimal_value_snoc by simp
  qed
qed

lemma digits_inj: "digits n = digits m \<Longrightarrow> n = m"
  by (metis decimal_value_digits)

lemma digit_not_minus: "d < 10 \<Longrightarrow> (0x30 + of_nat d :: 16 word) \<noteq> 0x2D"
proof
  assume d: "d < 10" and e: "(0x30 + of_nat d :: 16 word) = 0x2D"
  have "unat (0x30 :: 16 word) + unat (of_nat d :: 16 word) < 2 ^ LENGTH(16)"
    using d by (simp add: small_unat)
  then have "unat (0x30 + of_nat d :: 16 word) = unat (0x30 :: 16 word) + unat (of_nat d :: 16 word)"
    by (simp only: unat_add_lem)
  then have u: "unat (0x30 + of_nat d :: 16 word) = 48 + d" using d by (simp add: small_unat)
  have "unat (0x30 + of_nat d :: 16 word) = unat (0x2D :: 16 word)" by (simp only: e)
  with u show False by simp
qed

lemma digits_hd: "\<exists>c cs. digits n = c # cs \<and> c \<noteq> 0x2D"
proof (induction n rule: digits.induct)
  case (1 n)
  show ?case
  proof (cases "n < 10")
    case True
    then have "digits n = [0x30 + of_nat n]" by (subst digits.simps) simp
    with digit_not_minus[OF True] show ?thesis by simp
  next
    case False
    then have d: "digits n = digits (n div 10) @ [0x30 + of_nat (n mod 10)]"
      by (subst digits.simps) simp
    from 1[OF False] obtain c cs where "digits (n div 10) = c # cs" "c \<noteq> 0x2D" by blast
    then show ?thesis unfolding d by simp
  qed
qed

lemma String_int_inj: "String_int a = String_int b \<Longrightarrow> a = b"
proof -
  assume e: "String_int a = String_int b"
  obtain c cs where ca: "digits (nat a) = c # cs" "c \<noteq> 0x2D" using digits_hd by blast
  obtain d ds where cb: "digits (nat b) = d # ds" "d \<noteq> 0x2D" using digits_hd by blast
  show ?thesis
  proof (cases "a < 0")
    case an: True
    show ?thesis
    proof (cases "b < 0")
      case True
      with an e have "digits (nat (- a)) = digits (nat (- b))" by (simp add: String_int_def)
      then have "nat (- a) = nat (- b)" by (rule digits_inj)
      with an True show ?thesis by simp
    next
      case False
      with an e cb show ?thesis by (simp add: String_int_def)
    qed
  next
    case ap: False
    show ?thesis
    proof (cases "b < 0")
      case True
      with ap e ca show ?thesis by (simp add: String_int_def)
    next
      case False
      with ap e have "digits (nat a) = digits (nat b)" by (simp add: String_int_def)
      then have "nat a = nat b" by (rule digits_inj)
      with ap False show ?thesis by simp
    qed
  qed
qed

lemma String_js_inj_on: "inj_on String_js (range Num)"
  by (auto simp: inj_on_def dest: String_int_inj)

lemma tracker_agrees_on_numbers:
  assumes "set correct \<subseteq> range Num" and "set user \<subseteq> range Num"
  shows "isRight_tracker correct user = isRight_ResultView correct user"
  using inj_on_image_eq_iff[OF String_js_inj_on assms]
  by (simp add: isRight_tracker_iff isRight_ResultView_iff)

text \<open>
  Claim C1: wherever an answer is graded, the selection and the correct indices match
  exactly when they hold the same elements, whatever the order and whether an index is
  a number or a string; \<^verbatim>\<open>[0,1]\<close> matches \<^verbatim>\<open>["1","0"]\<close>. The result tally and the
  per-question feedback do that (\<open>isRight_ResultView_iff\<close>, \<open>isDraftCorrect_iff\<close>); the
  mistake tracker compares the elements as they are (\<open>isRight_tracker_iff\<close>) and grades
  that pair as wrong: the session that the tally counts as one correct answer puts
  the question into the mistake set. (On arrays that hold numbers only the tracker
  agrees with the other places, \<open>tracker_agrees_on_numbers\<close>.)
\<close>

theorem tracker_grading_differs:
  "isRight_ResultView [Str (js ''1''), Str (js ''0'')] [Num 0, Num 1] = True \<and>
   isDraftCorrect True [Str (js ''1''), Str (js ''0'')] [Num 0, Num 1] = True \<and>
   isRight_tracker [Str (js ''1''), Str (js ''0'')] [Num 0, Num 1] = False \<and>
   tally (answers example_session3) (questions example_session3) (0, 0, 0) = (1, 0, 0) \<and>
   counter_of (js ''q-2-0'') (updateMistakesDatabase 5 [] example_session3) = Some 0"
  by code_simp

section \<open>Properties of the JSON repair\<close>

text \<open>
  Claim C6: for every string, the empty one included, \<^verbatim>\<open>repairJSON\<close> returns a string
  and does not throw: whatever the parser does on the input, the result is a normal one.
  (The function has no loop of its own; the model is a total function.)
\<close>

theorem repairJSON_returns: "\<exists>r. repairJSON parse jsonStr = Inr r"
  by (simp add: repairJSON_def Let_def split: sum.split)

text \<open>
  Claim C7: an input that already parses is returned unchanged.
\<close>

theorem repairJSON_unchanged: "parse jsonStr = Inr v \<Longrightarrow> repairJSON parse jsonStr = Inr jsonStr"
  by (simp add: repairJSON_def)

text \<open>The same on a concrete JSON text, with the recogniser as the parser.\<close>

theorem repairJSON_unchanged_witness:
  \<open>JSON_parse (js ''{"questions": [{"text": "Q", "correctIndices": [0, 1]}]}'') = Inr () \<and>
   repairJSON JSON_parse (js ''{"questions": [{"text": "Q", "correctIndices": [0, 1]}]}'')
     = Inr (js ''{"questions": [{"text": "Q", "correctIndices": [0, 1]}]}'')\<close>
proof -
  have h: \<open>JSON_parse (js ''{"questions": [{"text": "Q", "correctIndices": [0, 1]}]}'') = Inr ()\<close>
    by code_simp
  from h repairJSON_unchanged[where parse = JSON_parse and v = "()", OF h] show ?thesis by (rule conjI)
qed

section \<open>Properties of the type normalisation\<close>

text \<open>
  Claim C8, as stated, fails: a string that contains ``true'' does not always map to
  true-false. The test for the multiple-choice words comes first, so
  \<open>''multiple true''\<close> maps to multiple-choice.
\<close>

theorem normalizeType_multiple_first:
  "includes_str (lower_ascii (js ''multiple true'')) (js ''true'') \<and>
   normalizeType lower_ascii (JString (js ''multiple true'')) = MULTIPLE"
  by code_simp

text \<open>
  Claim C8, as amended. With the lower-cased type string: if it contains ``multiple'',
  ``check'' or the multi-select term, the type is multiple-choice; if it contains none
  of those and contains ``true'', ``false'', ``judgment'' or the true-false term, the
  type is true-false; and a string with none of the seven, or a value that is not a
  string, gives single-choice.
\<close>

theorem normalizeType_cases:
  "(\<forall>s. t = JString s \<and>
        (includes_str (toLowerCase s) (js ''multiple'') \<or> includes_str (toLowerCase s) (js ''check'') \<or>
         includes_str (toLowerCase s) term_multiple)
      \<longrightarrow> normalizeType toLowerCase t = MULTIPLE) \<and>
   (\<forall>s. t = JString s \<and>
        \<not> (includes_str (toLowerCase s) (js ''multiple'') \<or> includes_str (toLowerCase s) (js ''check'') \<or>
           includes_str (toLowerCase s) term_multiple) \<and>
        (includes_str (toLowerCase s) (js ''true'') \<or> includes_str (toLowerCase s) (js ''false'') \<or>
         includes_str (toLowerCase s) (js ''judgment'') \<or> includes_str (toLowerCase s) term_judgment)
      \<longrightarrow> normalizeType toLowerCase t = JUDGMENT) \<and>
   ((\<forall>s. t = JString s \<longrightarrow>
        \<not> (includes_str (toLowerCase s) (js ''multiple'') \<or> includes_str (toLowerCase s) (js ''check'') \<or>
           includes_str (toLowerCase s) term_multiple \<or>
           includes_str (toLowerCase s) (js ''true'') \<or> includes_str (toLowerCase s) (js ''false'') \<or>
           includes_str (toLowerCase s) (js ''judgment'') \<or> includes_str (toLowerCase s) term_judgment))
      \<longrightarrow> normalizeType toLowerCase t = SINGLE)"
  by (cases t) (auto simp: normalizeType_def Let_def)

text \<open>
  The three cases on concrete values, lower-casing the ASCII letters: ``Multiple
  Choice'', ``TRUE/False'' and a missing type.
\<close>

theorem normalizeType_cases_witness:
  "includes_str (lower_ascii (js ''Multiple Choice'')) (js ''multiple'') \<and>
   normalizeType lower_ascii (JString (js ''Multiple Choice'')) = MULTIPLE \<and>
   \<not> (includes_str (lower_ascii (js ''TRUE/False'')) (js ''multiple'') \<or>
      includes_str (lower_ascii (js ''TRUE/False'')) (js ''check'') \<or>
      includes_str (lower_ascii (js ''TRUE/False'')) term_multiple) \<and>
   includes_str (lower_ascii (js ''TRUE/False'')) (js ''true'') \<and>
   normalizeType lower_ascii (JString (js ''TRUE/False'')) = JUDGMENT \<and>
   normalizeType lower_ascii JUndefined = SINGLE"
proof -
  have a: "includes_str (lower_ascii (js ''Multiple Choice'')) (js ''multiple'')" by code_simp
  have b: "\<not> (includes_str (lower_ascii (js ''TRUE/False'')) (js ''multiple'') \<or>
      includes_str (lower_ascii (js ''TRUE/False'')) (js ''check'') \<or>
      includes_str (lower_ascii (js ''TRUE/False'')) term_multiple)" by code_simp
  have c: "includes_str (lower_ascii (js ''TRUE/False'')) (js ''true'')" by code_simp
  have 1: "normalizeType lower_ascii (JString (js ''Multiple Choice'')) = MULTIPLE"
    using normalizeType_cases[of "JString (js ''Multiple Choice'')" lower_ascii] a by blast
  have 2: "normalizeType lower_ascii (JString (js ''TRUE/False'')) = JUDGMENT"
    using normalizeType_cases[of "JString (js ''TRUE/False'')" lower_ascii] b c by blast
  have 3: "normalizeType lower_ascii JUndefined = SINGLE"
    using normalizeType_cases[of JUndefined lower_ascii] by blast
  from a b c 1 2 3 show ?thesis by blast
qed

section \<open>Properties of the mistake tracker\<close>

subsection \<open>Entry lists\<close>

lemma map_of_Map_set: "map_of (Map_set m k v) k' = (if k' = k then Some v else map_of m k')"
  by (induction m) auto

lemma map_of_Map_delete: "map_of (Map_delete m k) k' = (if k' = k then None else map_of m k')"
  by (induction m) (auto simp: Map_delete_def)

lemma set_Map_set: "set (Map_set m k v) \<subseteq> insert (k, v) (set m)"
  by (induction m) (auto split: if_splits)

lemma set_Map_delete: "set (Map_delete m k) \<subseteq> set m"
  by (auto simp: Map_delete_def)

lemma keys_Map_set: "fst ` set (Map_set m k v) = insert k (fst ` set m)"
proof (induction m)
  case Nil
  then show ?case by simp
next
  case (Cons e m)
  then show ?case by (cases e) (simp add: insert_commute)
qed

lemma distinct_Map_set: "distinct (map fst m) \<Longrightarrow> distinct (map fst (Map_set m k v))"
proof (induction m)
  case Nil
  then show ?case by simp
next
  case (Cons e m)
  obtain k' v' where e: "e = (k', v')" by (cases e)
  show ?case
  proof (cases "k' = k")
    case True
    with Cons.prems e show ?thesis by simp
  next
    case False
    have "k' \<notin> fst ` set (Map_set m k v)"
      using Cons.prems e False by (simp add: keys_Map_set)
    with Cons e False show ?thesis by simp
  qed
qed

lemma distinct_Map_delete: "distinct (map fst m) \<Longrightarrow> distinct (map fst (Map_delete m k))"
  by (simp add: Map_delete_def distinct_map_filter)

lemma Map_set_new: "k \<notin> fst ` set m \<Longrightarrow> Map_set m k v = m @ [(k, v)]"
  by (induction m) auto

lemma snd_Map_set:
  "\<forall>e \<in> set m. P (snd e) \<Longrightarrow> P v \<Longrightarrow> \<forall>e \<in> set (Map_set m k v). P (snd e)"
  using set_Map_set[of m k v] by fastforce

lemma keyed_Map_set:
  "\<forall>e \<in> set m. fst e = f (snd e) \<Longrightarrow> k = f v \<Longrightarrow> \<forall>e \<in> set (Map_set m k v). fst e = f (snd e)"
  using set_Map_set[of m k v] by fastforce

lemma all_Map_delete: "\<forall>e \<in> set m. P e \<Longrightarrow> \<forall>e \<in> set (Map_delete m k). P e"
  using set_Map_delete[of m k] by blast

subsection \<open>One step of the tracker\<close>

text \<open>The map after a step: unchanged, or one entry deleted, or one entry set.\<close>

lemma tracker_step_shape:
  "fst (tracker_step now s (mm, b) (k, u)) = mm \<or>
   (\<exists>r0. map_of mm k = Some r0 \<and> consecutiveCorrect r0 + 1 \<ge> MASTERY_THRESHOLD \<and>
         fst (tracker_step now s (mm, b) (k, u)) = Map_delete mm k) \<or>
   (\<exists>r0. map_of mm k = Some r0 \<and> consecutiveCorrect r0 + 1 < MASTERY_THRESHOLD \<and>
         fst (tracker_step now s (mm, b) (k, u)) =
           Map_set mm k (r0\<lparr>consecutiveCorrect := consecutiveCorrect r0 + 1, lastReviewed := now\<rparr>)) \<or>
   (\<exists>r0. map_of mm k = Some r0 \<and>
         fst (tracker_step now s (mm, b) (k, u)) =
           Map_set mm k (r0\<lparr>consecutiveCorrect := 0, lastReviewed := now\<rparr>)) \<or>
   (\<exists>quest. find (\<lambda>q. qid q = k) (questions s) = Some quest \<and>
         fst (tracker_step now s (mm, b) (k, u)) =
           Map_set mm k \<lparr>question = quest, consecutiveCorrect = 0, lastReviewed = now,
                          originalBankName = Some (bankName s)\<rparr>)"
  by (simp add: tracker_step_def Map_get_def Let_def split: option.split)

lemma find_key: "find (\<lambda>q. qid q = k) qs = Some quest \<Longrightarrow> qid quest = k"
  by (induction qs) (auto split: if_splits)

lemma tracker_step_range:
  assumes inv: "\<forall>e \<in> set mm. below_mastery (snd e)"
  shows "\<forall>e \<in> set (fst (tracker_step now s (mm, b) (k, u))). below_mastery (snd e)"
proof -
  have old: "\<And>r0. map_of mm k = Some r0 \<Longrightarrow> below_mastery r0"
    using inv by (force dest: map_of_SomeD)
  from tracker_step_shape[of now s mm b k u] show ?thesis
  proof (elim disjE exE conjE)
    assume "fst (tracker_step now s (mm, b) (k, u)) = mm"
    with inv show ?thesis by simp
  next
    fix r0 assume "fst (tracker_step now s (mm, b) (k, u)) = Map_delete mm k"
    with all_Map_delete[of mm "\<lambda>e. below_mastery (snd e)" k] inv show ?thesis by simp
  next
    fix r0 assume m: "map_of mm k = Some r0" and lt: "consecutiveCorrect r0 + 1 < MASTERY_THRESHOLD"
      and eq: "fst (tracker_step now s (mm, b) (k, u)) =
           Map_set mm k (r0\<lparr>consecutiveCorrect := consecutiveCorrect r0 + 1, lastReviewed := now\<rparr>)"
    from old[OF m] lt
    have "below_mastery (r0\<lparr>consecutiveCorrect := consecutiveCorrect r0 + 1, lastReviewed := now\<rparr>)"
      by (simp add: below_mastery_def)
    then show ?thesis unfolding eq by (rule snd_Map_set[OF inv])
  next
    fix r0 assume eq: "fst (tracker_step now s (mm, b) (k, u)) =
           Map_set mm k (r0\<lparr>consecutiveCorrect := 0, lastReviewed := now\<rparr>)"
    have "below_mastery (r0\<lparr>consecutiveCorrect := 0, lastReviewed := now\<rparr>)"
      by (simp add: below_mastery_def MASTERY_THRESHOLD_def)
    then show ?thesis unfolding eq by (rule snd_Map_set[OF inv])
  next
    fix quest assume eq: "fst (tracker_step now s (mm, b) (k, u)) =
           Map_set mm k \<lparr>question = quest, consecutiveCorrect = 0, lastReviewed = now,
                          originalBankName = Some (bankName s)\<rparr>"
    have "below_mastery \<lparr>question = quest, consecutiveCorrect = 0, lastReviewed = now,
                          originalBankName = Some (bankName s)\<rparr>"
      by (simp add: below_mastery_def MASTERY_THRESHOLD_def)
    then show ?thesis unfolding eq by (rule snd_Map_set[OF inv])
  qed
qed

lemma tracker_step_keyed:
  assumes inv: "\<forall>e \<in> set mm. fst e = qid (question (snd e))"
  shows "\<forall>e \<in> set (fst (tracker_step now s (mm, b) (k, u))). fst e = qid (question (snd e))"
proof -
  have old: "\<And>r0. map_of mm k = Some r0 \<Longrightarrow> k = qid (question r0)"
    using inv by (force dest: map_of_SomeD)
  from tracker_step_shape[of now s mm b k u] show ?thesis
  proof (elim disjE exE conjE)
    assume "fst (tracker_step now s (mm, b) (k, u)) = mm"
    with inv show ?thesis by simp
  next
    fix r0 assume "fst (tracker_step now s (mm, b) (k, u)) = Map_delete mm k"
    with all_Map_delete[of mm "\<lambda>e. fst e = qid (question (snd e))" k] inv show ?thesis by simp
  next
    fix r0 assume m: "map_of mm k = Some r0"
      and eq: "fst (tracker_step now s (mm, b) (k, u)) =
           Map_set mm k (r0\<lparr>consecutiveCorrect := consecutiveCorrect r0 + 1, lastReviewed := now\<rparr>)"
    from old[OF m] show ?thesis unfolding eq by (intro keyed_Map_set[OF inv]) simp
  next
    fix r0 assume m: "map_of mm k = Some r0"
      and eq: "fst (tracker_step now s (mm, b) (k, u)) =
           Map_set mm k (r0\<lparr>consecutiveCorrect := 0, lastReviewed := now\<rparr>)"
    from old[OF m] show ?thesis unfolding eq by (intro keyed_Map_set[OF inv]) simp
  next
    fix quest assume f: "find (\<lambda>q. qid q = k) (questions s) = Some quest"
      and eq: "fst (tracker_step now s (mm, b) (k, u)) =
           Map_set mm k \<lparr>question = quest, consecutiveCorrect = 0, lastReviewed = now,
                          originalBankName = Some (bankName s)\<rparr>"
    from find_key[OF f] show ?thesis unfolding eq by (intro keyed_Map_set[OF inv]) simp
  qed
qed

lemma tracker_step_distinct:
  assumes "distinct (map fst mm)"
  shows "distinct (map fst (fst (tracker_step now s (mm, b) (k, u))))"
  using tracker_step_shape[of now s mm b k u] assms
  by (elim disjE exE conjE) (simp_all add: distinct_Map_set distinct_Map_delete)

lemma tracker_step_other:
  assumes "k \<noteq> q"
  shows "map_of (fst (tracker_step now s (mm, b) (k, u))) q = map_of mm q"
  using tracker_step_shape[of now s mm b k u] assms
  by (elim disjE exE conjE) (simp_all add: map_of_Map_set map_of_Map_delete)

lemma tracker_step_counter:
  "map_option consecutiveCorrect (map_of (fst (tracker_step now s (mm, b) (q, u))) q) =
     (case find (\<lambda>x. qid x = q) (questions s) of
        None \<Rightarrow> map_option consecutiveCorrect (map_of mm q)
      | Some quest \<Rightarrow>
          mastery_step (map_option consecutiveCorrect (map_of mm q))
            (isRight_tracker (correctIndices quest) u))"
  by (simp add: tracker_step_def Map_get_def Let_def map_of_Map_set map_of_Map_delete
      split: option.split)

lemma tracker_step_flag:
  assumes "snd (tracker_step now s (mm, b) (k, u)) = False"
  shows "fst (tracker_step now s (mm, b) (k, u)) = mm \<and> b = False"
  using assms
  by (simp add: tracker_step_def Map_get_def Let_def split: option.splits if_splits)


subsection \<open>The loop over the answers\<close>

lemma tracker_loop_range:
  "\<forall>e \<in> set mm. below_mastery (snd e) \<Longrightarrow>
   \<forall>e \<in> set (fst (foldl (tracker_step now s) (mm, b) ents)). below_mastery (snd e)"
proof (induction ents arbitrary: mm b)
  case Nil
  then show ?case by simp
next
  case (Cons ent ents)
  obtain k u where ent: "ent = (k, u)" by (cases ent)
  obtain mm' b' where st: "tracker_step now s (mm, b) (k, u) = (mm', b')"
    by (cases "tracker_step now s (mm, b) (k, u)")
  have "\<forall>e \<in> set mm'. below_mastery (snd e)"
    using tracker_step_range[OF Cons.prems, of now s b k u] st by simp
  from Cons.IH[OF this] show ?case by (simp add: ent st)
qed

lemma tracker_loop_keyed:
  "\<forall>e \<in> set mm. fst e = qid (question (snd e)) \<Longrightarrow>
   \<forall>e \<in> set (fst (foldl (tracker_step now s) (mm, b) ents)). fst e = qid (question (snd e))"
proof (induction ents arbitrary: mm b)
  case Nil
  then show ?case by simp
next
  case (Cons ent ents)
  obtain k u where ent: "ent = (k, u)" by (cases ent)
  obtain mm' b' where st: "tracker_step now s (mm, b) (k, u) = (mm', b')"
    by (cases "tracker_step now s (mm, b) (k, u)")
  have "\<forall>e \<in> set mm'. fst e = qid (question (snd e))"
    using tracker_step_keyed[OF Cons.prems, of now s b k u] st by simp
  from Cons.IH[OF this] show ?case by (simp add: ent st)
qed

lemma tracker_loop_distinct:
  "distinct (map fst mm) \<Longrightarrow>
   distinct (map fst (fst (foldl (tracker_step now s) (mm, b) ents)))"
proof (induction ents arbitrary: mm b)
  case Nil
  then show ?case by simp
next
  case (Cons ent ents)
  obtain k u where ent: "ent = (k, u)" by (cases ent)
  obtain mm' b' where st: "tracker_step now s (mm, b) (k, u) = (mm', b')"
    by (cases "tracker_step now s (mm, b) (k, u)")
  have "distinct (map fst mm')"
    using tracker_step_distinct[OF Cons.prems, of now s b k u] st by simp
  from Cons.IH[OF this] show ?case by (simp add: ent st)
qed

lemma tracker_loop_flag:
  "snd (foldl (tracker_step now s) (mm, b) ents) = False \<Longrightarrow>
   fst (foldl (tracker_step now s) (mm, b) ents) = mm \<and> b = False"
proof (induction ents arbitrary: mm b)
  case Nil
  then show ?case by simp
next
  case (Cons ent ents)
  obtain k u where ent: "ent = (k, u)" by (cases ent)
  obtain mm' b' where st: "tracker_step now s (mm, b) (k, u) = (mm', b')"
    by (cases "tracker_step now s (mm, b) (k, u)")
  from Cons.prems have p: "snd (foldl (tracker_step now s) (mm', b') ents) = False"
    by (simp add: ent st)
  have r: "fst (foldl (tracker_step now s) (mm', b') ents) = mm'" "b' = False"
    by (rule conjunct1[OF Cons.IH[OF p]], rule conjunct2[OF Cons.IH[OF p]])
  from r(2) st have "snd (tracker_step now s (mm, b) (k, u)) = False" by simp
  from tracker_step_flag[OF this] st have m: "mm' = mm" "b = False" by simp_all
  have "foldl (tracker_step now s) (mm, b) (ent # ents) = foldl (tracker_step now s) (mm', b') ents"
    by (simp add: ent st)
  with r(1) m show ?case by simp
qed

text \<open>
  The counter of question \<open>q\<close> after the loop, when the keys of the answers are
  distinct: one transition if the session grades \<open>q\<close>, none otherwise.
\<close>

lemma tracker_loop_counter:
  assumes "distinct (map fst ents)"
  shows "map_option consecutiveCorrect (map_of (fst (foldl (tracker_step now s) (mm, b) ents)) q) =
     (case map_of ents q of
        None \<Rightarrow> map_option consecutiveCorrect (map_of mm q)
      | Some u \<Rightarrow>
          (case find (\<lambda>x. qid x = q) (questions s) of
             None \<Rightarrow> map_option consecutiveCorrect (map_of mm q)
           | Some quest \<Rightarrow>
               mastery_step (map_option consecutiveCorrect (map_of mm q))
                 (isRight_tracker (correctIndices quest) u)))"
  using assms
proof (induction ents arbitrary: mm b)
  case Nil
  then show ?case by simp
next
  case (Cons ent ents)
  obtain k u where ent: "ent = (k, u)" by (cases ent)
  obtain mm' b' where st: "tracker_step now s (mm, b) (k, u) = (mm', b')"
    by (cases "tracker_step now s (mm, b) (k, u)")
  from Cons.prems ent have d: "distinct (map fst ents)" and nk: "k \<notin> fst ` set ents"
    by simp_all
  have ih: "map_option consecutiveCorrect (map_of (fst (foldl (tracker_step now s) (mm', b') ents)) q) =
     (case map_of ents q of
        None \<Rightarrow> map_option consecutiveCorrect (map_of mm' q)
      | Some u \<Rightarrow>
          (case find (\<lambda>x. qid x = q) (questions s) of
             None \<Rightarrow> map_option consecutiveCorrect (map_of mm' q)
           | Some quest \<Rightarrow>
               mastery_step (map_option consecutiveCorrect (map_of mm' q))
                 (isRight_tracker (correctIndices quest) u)))"
    by (rule Cons.IH[OF d])
  have lhs: "foldl (tracker_step now s) (mm, b) (ent # ents) = foldl (tracker_step now s) (mm', b') ents"
    by (simp add: ent st)
  show ?case
  proof (cases "k = q")
    case True
    have none: "map_of ents q = None" using nk True by (simp add: map_of_eq_None_iff)
    have here: "map_of (ent # ents) q = Some u" using True by (simp add: ent)
    have "tracker_step now s (mm, b) (q, u) = (mm', b')" using st True by simp
    then have "map_option consecutiveCorrect (map_of mm' q) =
       (case find (\<lambda>x. qid x = q) (questions s) of
          None \<Rightarrow> map_option consecutiveCorrect (map_of mm q)
        | Some quest \<Rightarrow>
            mastery_step (map_option consecutiveCorrect (map_of mm q))
              (isRight_tracker (correctIndices quest) u))"
      using tracker_step_counter[of now s mm b q u] by simp
    then show ?thesis unfolding lhs here ih none by (simp cong: option.case_cong)
  next
    case False
    have there: "map_of (ent # ents) q = map_of ents q" using False by (simp add: ent)
    have "map_of mm' q = map_of mm q"
      using tracker_step_other[OF False, of now s mm b u] st by simp
    then show ?thesis unfolding lhs there ih by (simp cong: option.case_cong)
  qed
qed

subsection \<open>The whole update\<close>

lemma build_from:
  "distinct (map fst acc @ map (\<lambda>r. qid (question r)) ms) \<Longrightarrow>
   foldl (\<lambda>m r. Map_set m (qid (question r)) r) acc ms = acc @ map (\<lambda>r. (qid (question r), r)) ms"
proof (induction ms arbitrary: acc)
  case Nil
  then show ?case by simp
next
  case (Cons r ms)
  from Cons.prems have new: "qid (question r) \<notin> fst ` set acc" by auto
  have step: "Map_set acc (qid (question r)) r = acc @ [(qid (question r), r)]"
    by (rule Map_set_new[OF new])
  from Cons.prems
  have "distinct (map fst (acc @ [(qid (question r), r)]) @ map (\<lambda>r. qid (question r)) ms)"
    by auto
  from Cons.IH[OF this] show ?case by (simp add: step)
qed

lemma build_mistakeMap_distinct:
  "distinct (map (\<lambda>r. qid (question r)) ms) \<Longrightarrow>
   build_mistakeMap ms = map (\<lambda>r. (qid (question r), r)) ms"
  using build_from[of "[]" ms] by (simp add: build_mistakeMap_def)

lemma build_from_values:
  "snd ` set (foldl (\<lambda>m r. Map_set m (qid (question r)) r) acc ms) \<subseteq> snd ` set acc \<union> set ms"
proof (induction ms arbitrary: acc)
  case Nil
  then show ?case by simp
next
  case (Cons r ms)
  have "snd ` set (Map_set acc (qid (question r)) r) \<subseteq> insert r (snd ` set acc)"
    using set_Map_set[of acc "qid (question r)" r] by force
  with Cons.IH[of "Map_set acc (qid (question r)) r"] show ?case by auto
qed

lemma build_mistakeMap_values: "snd ` set (build_mistakeMap ms) \<subseteq> set ms"
  using build_from_values[of "[]" ms] by (simp add: build_mistakeMap_def)

lemma find_values:
  "\<forall>e \<in> set mm. fst e = qid (question (snd e)) \<Longrightarrow>
   find (\<lambda>r. qid (question r) = q) (map snd mm) = map_of mm q"
  by (induction mm) auto

lemma update_below_mastery:
  assumes "\<forall>r \<in> set ms. below_mastery r"
  shows "\<forall>r \<in> set (updateMistakesDatabase now ms s). below_mastery r"
proof -
  obtain mm' b' where lp:
    "foldl (tracker_step now s) (build_mistakeMap ms, False) (answers s) = (mm', b')"
    by (cases "foldl (tracker_step now s) (build_mistakeMap ms, False) (answers s)")
  have "\<forall>e \<in> set (build_mistakeMap ms). below_mastery (snd e)"
    using build_mistakeMap_values[of ms] assms by auto
  from tracker_loop_range[OF this, of now s False "answers s"] lp
  have "\<forall>e \<in> set mm'. below_mastery (snd e)" by simp
  then have "\<forall>r \<in> set (Map_values mm'). below_mastery r" by (simp add: Map_values_def)
  with assms lp show ?thesis by (simp add: updateMistakesDatabase_def)
qed

lemma run_below_mastery:
  "\<forall>r \<in> set ms. below_mastery r \<Longrightarrow> \<forall>r \<in> set (run_sessions ms evs). below_mastery r"
proof (induction evs arbitrary: ms)
  case Nil
  then show ?case by (simp add: run_sessions_def)
next
  case (Cons e evs)
  have "\<forall>r \<in> set (updateMistakesDatabase (fst e) ms (snd e)). below_mastery r"
    by (rule update_below_mastery[OF Cons.prems])
  from Cons.IH[OF this] show ?case by (simp add: run_sessions_def)
qed

text \<open>With well-formed inputs the update is the values of the map in both branches.\<close>

lemma update_values:
  assumes d: "distinct (map (\<lambda>r. qid (question r)) ms)"
  shows "updateMistakesDatabase now ms s =
           Map_values (fst (foldl (tracker_step now s)
                              (map (\<lambda>r. (qid (question r), r)) ms, False) (answers s)))"
proof -
  let ?start = "map (\<lambda>r. (qid (question r), r)) ms"
  obtain mm' b' where lp: "foldl (tracker_step now s) (?start, False) (answers s) = (mm', b')"
    by (cases "foldl (tracker_step now s) (?start, False) (answers s)")
  have v0: "Map_values ?start = ms" by (simp add: Map_values_def comp_def)
  show ?thesis
  proof (cases b')
    case True
    with lp show ?thesis by (simp add: updateMistakesDatabase_def build_mistakeMap_distinct[OF d])
  next
    case False
    with lp have "snd (foldl (tracker_step now s) (?start, False) (answers s)) = False" by simp
    from tracker_loop_flag[OF this] lp have "mm' = ?start" by simp
    with lp False v0 show ?thesis
      by (simp add: updateMistakesDatabase_def build_mistakeMap_distinct[OF d])
  qed
qed

lemma update_wf:
  assumes "wf_mistakes ms"
  shows "wf_mistakes (updateMistakesDatabase now ms s)"
proof -
  let ?start = "map (\<lambda>r. (qid (question r), r)) ms"
  let ?final = "fst (foldl (tracker_step now s) (?start, False) (answers s))"
  from assms have d: "distinct (map (\<lambda>r. qid (question r)) ms)"
    and bm: "\<forall>r \<in> set ms. below_mastery r"
    by (simp_all add: wf_mistakes_def list_all_iff)
  have k0: "\<forall>e \<in> set ?start. fst e = qid (question (snd e))" by simp
  have d0: "distinct (map fst ?start)" using d by (simp add: comp_def)
  have k: "\<forall>e \<in> set ?final. fst e = qid (question (snd e))"
    using tracker_loop_keyed[of ?start now s False "answers s"] by simp
  have dd: "distinct (map fst ?final)" by (rule tracker_loop_distinct[OF d0])
  have "map (\<lambda>r. qid (question r)) (Map_values ?final) = map fst ?final"
    using k by (simp add: Map_values_def)
  with dd have "distinct (map (\<lambda>r. qid (question r)) (Map_values ?final))" by simp
  then have "distinct (map (\<lambda>r. qid (question r)) (updateMistakesDatabase now ms s))"
    by (simp add: update_values[OF d])
  moreover have "\<forall>r \<in> set (updateMistakesDatabase now ms s). below_mastery r"
    by (rule update_below_mastery[OF bm])
  ultimately show ?thesis by (simp add: wf_mistakes_def list_all_iff)
qed

lemma update_counter:
  assumes "wf_mistakes ms" and "distinct (map fst (answers s))"
  shows "counter_of q (updateMistakesDatabase now ms s) =
           (case tracker_grade s q of None \<Rightarrow> counter_of q ms | Some g \<Rightarrow> mastery_step (counter_of q ms) g)"
proof -
  let ?start = "map (\<lambda>r. (qid (question r), r)) ms"
  let ?final = "fst (foldl (tracker_step now s) (?start, False) (answers s))"
  from assms have d: "distinct (map (\<lambda>r. qid (question r)) ms)"
    by (simp add: wf_mistakes_def)
  have k0: "\<forall>e \<in> set ?start. fst e = qid (question (snd e))" by simp
  have k: "\<forall>e \<in> set ?final. fst e = qid (question (snd e))"
    using tracker_loop_keyed[of ?start now s False "answers s"] by simp
  have v0: "map snd ?start = ms" by (simp add: comp_def)
  have c0: "counter_of q ms = map_option consecutiveCorrect (map_of ?start q)"
    using find_values[OF k0, of q, unfolded v0] by (simp add: counter_of_def tracked_def)
  have "counter_of q (updateMistakesDatabase now ms s) = map_option consecutiveCorrect (map_of ?final q)"
    using find_values[OF k, of q] by (simp add: counter_of_def tracked_def update_values[OF d] Map_values_def)
  also have "\<dots> = (case map_of (answers s) q of
        None \<Rightarrow> map_option consecutiveCorrect (map_of ?start q)
      | Some u \<Rightarrow>
          (case find (\<lambda>x. qid x = q) (questions s) of
             None \<Rightarrow> map_option consecutiveCorrect (map_of ?start q)
           | Some quest \<Rightarrow>
               mastery_step (map_option consecutiveCorrect (map_of ?start q))
                 (isRight_tracker (correctIndices quest) u)))"
    by (rule tracker_loop_counter[OF assms(2)])
  also have "\<dots> = (case tracker_grade s q of None \<Rightarrow> counter_of q ms | Some g \<Rightarrow> mastery_step (counter_of q ms) g)"
    by (simp add: tracker_grade_def Map_get_def c0 split: option.split)
  finally show ?thesis .
qed

lemma tracker_grades_Cons:
  "tracker_grades q (e # evs) = (case tracker_grade (snd e) q of None \<Rightarrow> tracker_grades q evs | Some g \<Rightarrow> g # tracker_grades q evs)"
  by (simp add: tracker_grades_def List.map_filter_simps split: option.split)

lemma run_wf: "wf_mistakes ms \<Longrightarrow> wf_mistakes (run_sessions ms evs)"
proof (induction evs arbitrary: ms)
  case Nil
  then show ?case by (simp add: run_sessions_def)
next
  case (Cons e evs)
  have "wf_mistakes (updateMistakesDatabase (fst e) ms (snd e))" by (rule update_wf[OF Cons.prems])
  from Cons.IH[OF this] show ?case by (simp add: run_sessions_def)
qed

lemma run_counter:
  "wf_mistakes ms \<Longrightarrow> wf_sessions evs \<Longrightarrow>
   counter_of q (run_sessions ms evs) = foldl mastery_step (counter_of q ms) (tracker_grades q evs)"
proof (induction evs arbitrary: ms)
  case Nil
  then show ?case by (simp add: run_sessions_def tracker_grades_def List.map_filter_simps)
next
  case (Cons e evs)
  from Cons.prems(2) have de: "distinct (map fst (answers (snd e)))" and we: "wf_sessions evs"
    by (simp_all add: wf_sessions_def)
  have w: "wf_mistakes (updateMistakesDatabase (fst e) ms (snd e))" by (rule update_wf[OF Cons.prems(1)])
  have "counter_of q (run_sessions ms (e # evs)) =
        counter_of q (run_sessions (updateMistakesDatabase (fst e) ms (snd e)) evs)"
    by (simp add: run_sessions_def)
  also have "\<dots> = foldl mastery_step (counter_of q (updateMistakesDatabase (fst e) ms (snd e))) (tracker_grades q evs)"
    by (rule Cons.IH[OF w we])
  also have "\<dots> = foldl mastery_step (counter_of q ms) (tracker_grades q (e # evs))"
    by (simp add: update_counter[OF Cons.prems(1) de] tracker_grades_Cons split: option.split)
  finally show ?case .
qed

subsection \<open>The state machine of one question\<close>

lemma wrong_last: "foldl mastery_step c (pre @ [False]) = Some 0"
  by (cases "foldl mastery_step c pre") simp_all

lemma wrong_run: "0 < n \<Longrightarrow> foldl mastery_step c (replicate n False) = Some 0"
proof -
  assume "0 < n"
  then obtain m where "n = Suc m" by (cases n) auto
  then have "replicate n False = replicate m False @ [False]"
    by (simp add: replicate_append_same)
  then show ?thesis by (simp only: wrong_last)
qed

lemma three_right:
  "c = None \<or> (\<exists>i. c = Some i \<and> 0 \<le> i) \<Longrightarrow> foldl mastery_step c [True, True, True] = None"
  by (auto simp: MASTERY_THRESHOLD_def)

lemma counter_of_wf:
  "wf_mistakes ms \<Longrightarrow> counter_of q ms = None \<or> (\<exists>i. counter_of q ms = Some i \<and> 0 \<le> i)"
proof (cases "tracked q ms")
  case None
  then show ?thesis by (simp add: counter_of_def)
next
  case (Some r)
  assume "wf_mistakes ms"
  moreover from Some have "r \<in> set ms" by (auto simp: tracked_def find_Some_iff)
  ultimately have "0 \<le> consecutiveCorrect r"
    by (simp add: wf_mistakes_def list_all_iff below_mastery_def)
  with Some show ?thesis by (simp add: counter_of_def)
qed

text \<open>
  Claim C5: in every mistake set reached from the empty set by updates for any sequence
  of sessions, every stored record has its counter in the range from 0 up to, and not
  including, the mastery threshold 3: a record is kept only while its question is below
  mastery.
\<close>

theorem counter_below_threshold:
  "\<forall>r \<in> set (run_sessions [] evs). 0 \<le> consecutiveCorrect r \<and> consecutiveCorrect r < MASTERY_THRESHOLD"
  using run_below_mastery[of "[]" evs] by (simp add: below_mastery_def)

text \<open>
  After a wrong answer and two right ones the record of the example question is in the
  set, with counter 2.
\<close>

theorem counter_below_threshold_witness:
  "\<lparr>question = example_question, consecutiveCorrect = 2, lastReviewed = 3,
     originalBankName = Some (js ''Bank'')\<rparr>
     \<in> set (run_sessions []
              [(1, example_session [Num 0]), (2, example_session [Num 1]), (3, example_session [Num 1])]) \<and>
   0 \<le> consecutiveCorrect \<lparr>question = example_question, consecutiveCorrect = 2, lastReviewed = 3,
     originalBankName = Some (js ''Bank'')\<rparr> \<and>
   consecutiveCorrect \<lparr>question = example_question, consecutiveCorrect = 2, lastReviewed = 3,
     originalBankName = Some (js ''Bank'')\<rparr> < MASTERY_THRESHOLD"
proof -
  have m: "\<lparr>question = example_question, consecutiveCorrect = 2, lastReviewed = 3,
     originalBankName = Some (js ''Bank'')\<rparr>
     \<in> set (run_sessions []
              [(1, example_session [Num 0]), (2, example_session [Num 1]), (3, example_session [Num 1])])"
    by code_simp
  from counter_below_threshold[of "[(1, example_session [Num 0]), (2, example_session [Num 1]), (3, example_session [Num 1])]"] m
  show ?thesis by blast
qed

text \<open>
  The state machine of one question, with the answers graded as the tracker grades
  them.
\<close>

lemma mastery_by_tracker_grades:
  assumes "wf_mistakes ms" and "wf_sessions evs"
  shows "(tracker_grades q evs = replicate N False @ replicate 3 True \<longrightarrow>
            tracked q (run_sessions ms evs) = None) \<and>
         (\<forall>pre. tracker_grades q evs = pre @ [False] \<longrightarrow>
            (\<exists>r. tracked q (run_sessions ms evs) = Some r \<and> consecutiveCorrect r = 0))"
proof (intro conjI impI allI)
  have run: "counter_of q (run_sessions ms evs) = foldl mastery_step (counter_of q ms) (tracker_grades q evs)"
    by (rule run_counter[OF assms])
  {
    assume g: "tracker_grades q evs = replicate N False @ replicate 3 True"
    have three: "replicate 3 True = [True, True, True]" by (simp add: numeral_3_eq_3)
    have "foldl mastery_step (counter_of q ms) (replicate N False) = None \<or>
          (\<exists>i. foldl mastery_step (counter_of q ms) (replicate N False) = Some i \<and> 0 \<le> i)"
    proof (cases "N = 0")
      case True
      then show ?thesis using counter_of_wf[OF assms(1), of q] by simp
    next
      case False
      then have "foldl mastery_step (counter_of q ms) (replicate N False) = Some 0"
        by (intro wrong_run) simp
      then show ?thesis by simp
    qed
    then have "foldl mastery_step (foldl mastery_step (counter_of q ms) (replicate N False)) [True, True, True] = None"
      by (rule three_right)
    then have "counter_of q (run_sessions ms evs) = None"
      unfolding run g three by (simp only: foldl_append)
    then show "tracked q (run_sessions ms evs) = None" by (simp add: counter_of_def)
  }
  {
    fix pre assume g: "tracker_grades q evs = pre @ [False]"
    have "counter_of q (run_sessions ms evs) = Some 0" unfolding run g by (rule wrong_last)
    then show "\<exists>r. tracked q (run_sessions ms evs) = Some r \<and> consecutiveCorrect r = 0"
      by (auto simp: counter_of_def)
  }
qed

text \<open>
  On sessions whose index arrays hold numbers only, the tracker's grade is the grade of
  the specification, and the mastery transition is as the specification says.
\<close>

lemma is_Num_range: "list_all is_Num xs \<Longrightarrow> set xs \<subseteq> range Num"
proof
  fix x assume "list_all is_Num xs" and "x \<in> set xs"
  then have "is_Num x" by (simp add: list_all_iff)
  then show "x \<in> range Num" by (cases x) simp_all
qed

lemma find_mem: "find P xs = Some x \<Longrightarrow> x \<in> set xs"
  by (induction xs) (auto split: if_splits)

lemma tracker_grade_numeric:
  assumes "numeric_session s"
  shows "tracker_grade s q = graded s q"
proof (cases "Map_get (answers s) q")
  case None
  then show ?thesis by (simp add: tracker_grade_def graded_def)
next
  case has: (Some u)
  then have "(q, u) \<in> set (answers s)" by (simp add: Map_get_def map_of_SomeD)
  with assms have nu: "list_all is_Num u" by (auto simp: numeric_session_def list_all_iff)
  show ?thesis
  proof (cases "find (\<lambda>x. qid x = q) (questions s)")
    case None
    with has show ?thesis by (simp add: tracker_grade_def graded_def)
  next
    case (Some quest)
    then have "quest \<in> set (questions s)" by (rule find_mem)
    with assms have nc: "list_all is_Num (correctIndices quest)"
      by (simp add: numeric_session_def list_all_iff)
    have "isRight_tracker (correctIndices quest) u = isRight_ResultView (correctIndices quest) u"
      by (rule tracker_agrees_on_numbers[OF is_Num_range[OF nc] is_Num_range[OF nu]])
    with Some has show ?thesis by (simp add: tracker_grade_def graded_def)
  qed
qed

lemma tracker_grades_numeric: "numeric_sessions evs \<Longrightarrow> tracker_grades q evs = grades q evs"
proof (induction evs)
  case Nil
  then show ?case by (simp add: tracker_grades_def grades_def)
next
  case (Cons e evs)
  then have n: "numeric_session (snd e)" and r: "tracker_grades q evs = grades q evs"
    by (simp_all add: numeric_sessions_def)
  have "grades q (e # evs) = (case graded (snd e) q of None \<Rightarrow> grades q evs | Some g \<Rightarrow> g # grades q evs)"
    by (simp add: grades_def List.map_filter_simps split: option.split)
  with r tracker_grade_numeric[OF n, of q] show ?case
    by (simp add: tracker_grades_Cons split: option.split)
qed

lemma mastery_transition_numbers:
  assumes "wf_mistakes ms" and "wf_sessions evs" and "numeric_sessions evs"
  shows "(grades q evs = replicate N False @ replicate 3 True \<longrightarrow>
            tracked q (run_sessions ms evs) = None) \<and>
         (\<forall>pre. grades q evs = pre @ [False] \<longrightarrow>
            (\<exists>r. tracked q (run_sessions ms evs) = Some r \<and> consecutiveCorrect r = 0))"
  using mastery_by_tracker_grades[OF assms(1,2), of q N] tracker_grades_numeric[OF assms(3), of q]
  by simp

text \<open>
  On the example question, whose indices are numbers, from the empty set: wrong, then
  right three times, and the question is absent; wrong, right, right, wrong, and it is
  tracked at counter 0.
\<close>

lemma mastery_transition_numbers_example:
  "tracked (js ''q-1-0'') (run_sessions [] [(1, example_session [Num 0]), (2, example_session [Num 1]),
                (3, example_session [Num 1]), (4, example_session [Num 1])]) = None \<and>
   (\<exists>r. tracked (js ''q-1-0'') (run_sessions [] [(1, example_session [Num 0]), (2, example_session [Num 1]),
                (3, example_session [Num 1]), (4, example_session [Num 0])]) = Some r \<and>
        consecutiveCorrect r = 0)"
proof -
  let ?A = "[(1, example_session [Num 0]), (2, example_session [Num 1]),
             (3, example_session [Num 1]), (4, example_session [Num 1])]"
  let ?B = "[(1, example_session [Num 0]), (2, example_session [Num 1]),
             (3, example_session [Num 1]), (4, example_session [Num 0])]"
  have w: "wf_mistakes []" by (simp add: wf_mistakes_def)
  have wa: "wf_sessions ?A" by code_simp
  have wb: "wf_sessions ?B" by code_simp
  have na: "numeric_sessions ?A" by code_simp
  have nb: "numeric_sessions ?B" by code_simp
  have ga: "grades (js ''q-1-0'') ?A = replicate 1 False @ replicate 3 True" by code_simp
  have gb: "grades (js ''q-1-0'') ?B = [False, True, True] @ [False]" by code_simp
  from mastery_transition_numbers[OF w wa na, of "js ''q-1-0''" 1] ga
  have a: "tracked (js ''q-1-0'') (run_sessions [] ?A) = None" by blast
  from mastery_transition_numbers[OF w wb nb, of "js ''q-1-0''"] gb
  have b: "\<exists>r. tracked (js ''q-1-0'') (run_sessions [] ?B) = Some r \<and> consecutiveCorrect r = 0"
    by blast
  from a b show ?thesis by blast
qed

text \<open>
  Claim C4: a question answered incorrectly \<open>N\<close> times and then correctly three times in
  a row is absent from the mistake set, and an incorrect answer in between keeps it
  tracked with its counter at 0. An answer is correct when it holds the same elements
  as the correct indices, whatever their representation (\<open>graded\<close>). The tracker grades
  with its own comparison of the raw elements, so the claim fails for a question whose
  correct indices are strings: the example question with the correct indices
  \<^verbatim>\<open>["1","0"]\<close>, answered \<^verbatim>\<open>[0,1]\<close> in three sessions in a row (\<open>N = 0\<close>), is graded
  correct three times and is in the mistake set afterwards, at counter 0.
\<close>

theorem mastery_missed_on_string_indices:
  "wf_sessions [(1, example_session3), (2, example_session3), (3, example_session3)] \<and>
   grades (js ''q-2-0'') [(1, example_session3), (2, example_session3), (3, example_session3)]
     = replicate 0 False @ replicate 3 True \<and>
   tracker_grades (js ''q-2-0'') [(1, example_session3), (2, example_session3), (3, example_session3)]
     = [False, False, False] \<and>
   counter_of (js ''q-2-0'')
     (run_sessions [] [(1, example_session3), (2, example_session3), (3, example_session3)]) = Some 0"
  by code_simp

section \<open>Properties of the quiz view\<close>

lemma sync_effect_session [simp]:
  "session (sync_effect q v) = session v" "completed (sync_effect q v) = completed v"
  "isSubmitted (sync_effect q v) = (Map_get (answers (session v)) (qid q) \<noteq> None)"
  by (simp_all add: sync_effect_def Let_def)

lemma mount_ok: "mount s = Inr v \<Longrightarrow> view_ok v \<and> session v = s \<and> \<not> completed v"
  by (auto simp: mount_def currentQ_def view_ok_def split: if_splits)

lemma rerender_ok:
  assumes ok: "view_ok v" and nc: "\<not> completed v"
    and qs: "questions s' = questions (session v)"
    and ix: "currentQuestionIndex s' < length (questions s')"
    and an: "ar \<or> answers s' = answers (session v)"
  shows "\<exists>v'. rerender ar v s' = Inr v' \<and> view_ok v' \<and> session v' = s'"
proof -
  let ?old = "questions (session v) ! currentQuestionIndex (session v)"
  let ?q = "questions s' ! currentQuestionIndex s'"
  from ok have oix: "currentQuestionIndex (session v) < length (questions (session v))"
    and sub: "isSubmitted v \<longleftrightarrow> Map_get (answers (session v)) (qid ?old) \<noteq> None"
    using nc by (simp_all add: view_ok_def)
  show ?thesis
  proof (cases "qid ?q \<noteq> qid ?old \<or> ar")
    case True
    then have "rerender ar v s' = Inr (sync_effect ?q (v\<lparr>session := s'\<rparr>))"
      using oix ix by (simp add: rerender_def currentQ_def Let_def)
    moreover have "view_ok (sync_effect ?q (v\<lparr>session := s'\<rparr>))"
      using ix by (simp add: view_ok_def)
    ultimately show ?thesis by simp
  next
    case False
    then have r: "rerender ar v s' = Inr (v\<lparr>session := s'\<rparr>)"
      using oix ix by (simp add: rerender_def currentQ_def Let_def)
    from False an have "answers s' = answers (session v)" "qid ?q = qid ?old" by simp_all
    then have "view_ok (v\<lparr>session := s'\<rparr>)"
      using ix sub by (simp add: view_ok_def)
    with r show ?thesis by simp
  qed
qed

lemma answers_kept_same: "answers s' = answers s \<Longrightarrow> answers_kept s s'"
  by (simp add: answers_kept_def)

lemma answers_nonempty_same: "answers s' = answers s \<Longrightarrow> answers_nonempty s \<Longrightarrow> answers_nonempty s'"
  by (simp add: answers_nonempty_def)

text \<open>A navigation step: the session changes in the index and the time only.\<close>

lemma navigate_ok:
  assumes ok: "view_ok v" and nc: "\<not> completed v" and ix: "i < length (questions (session v))"
  shows "\<exists>v'. rerender False v (updateSessionSafe v (\<lambda>s. s\<lparr>currentQuestionIndex := i\<rparr>)) = Inr v' \<and>
              view_ok v' \<and> answers (session v') = answers (session v)"
proof -
  let ?s' = "updateSessionSafe v (\<lambda>s. s\<lparr>currentQuestionIndex := i\<rparr>)"
  have "\<exists>v'. rerender False v ?s' = Inr v' \<and> view_ok v' \<and> session v' = ?s'"
    by (rule rerender_ok[OF ok nc]) (simp_all add: updateSessionSafe_def ix)
  then show ?thesis by (auto simp: updateSessionSafe_def)
qed

lemma library_ok:
  assumes ok: "view_ok v" and nc: "\<not> completed v"
  shows "\<exists>v'. rerender False v (updateSessionSafe v (\<lambda>s. s)) = Inr v' \<and>
              view_ok v' \<and> answers (session v') = answers (session v)"
proof -
  let ?s' = "updateSessionSafe v (\<lambda>s. s)"
  from ok have ix: "currentQuestionIndex (session v) < length (questions (session v))"
    by (simp add: view_ok_def)
  have "\<exists>v'. rerender False v ?s' = Inr v' \<and> view_ok v' \<and> session v' = ?s'"
    by (rule rerender_ok[OF ok nc]) (simp_all add: updateSessionSafe_def ix)
  then show ?thesis by (auto simp: updateSessionSafe_def)
qed

lemma handleNext_ok:
  assumes ok: "view_ok v" and nc: "\<not> completed v"
  shows "\<exists>v'. handleNext v = Inr v' \<and> view_ok v' \<and> answers (session v') = answers (session v)"
proof (cases "int (currentQuestionIndex (session v)) < int (length (questions (session v))) - 1")
  case True
  then have ix: "currentQuestionIndex (session v) + 1 < length (questions (session v))" by simp
  have eq: "handleNext v = rerender False v
              (updateSessionSafe v (\<lambda>s. s\<lparr>currentQuestionIndex := currentQuestionIndex (session v) + 1\<rparr>))"
    using True by (simp add: handleNext_def Let_def updateSessionSafe_def)
  show ?thesis unfolding eq by (rule navigate_ok[OF ok nc ix])
next
  case False
  from ok have "currentQuestionIndex (session v) < length (questions (session v))"
    by (simp add: view_ok_def)
  with False show ?thesis by (simp add: handleNext_def Let_def view_ok_def)
qed

lemma handlePrev_ok:
  assumes ok: "view_ok v" and nc: "\<not> completed v"
  shows "\<exists>v'. handlePrev v = Inr v' \<and> view_ok v' \<and> answers (session v') = answers (session v)"
proof (cases "currentQuestionIndex (session v) > 0")
  case True
  from ok have "currentQuestionIndex (session v) < length (questions (session v))"
    by (simp add: view_ok_def)
  then have ix: "currentQuestionIndex (session v) - 1 < length (questions (session v))" by simp
  have eq: "handlePrev v = rerender False v
              (updateSessionSafe v (\<lambda>s. s\<lparr>currentQuestionIndex := currentQuestionIndex (session v) - 1\<rparr>))"
    using True by (simp add: handlePrev_def updateSessionSafe_def)
  show ?thesis unfolding eq by (rule navigate_ok[OF ok nc ix])
next
  case False
  with ok show ?thesis by (simp add: handlePrev_def)
qed

lemma handleDraftSelect_ok:
  assumes ok: "view_ok v" and nc: "\<not> completed v"
  shows "\<exists>v'. handleDraftSelect idx v = Inr v' \<and> view_ok v' \<and> answers (session v') = answers (session v)"
  using ok by (auto simp: handleDraftSelect_def currentQ_def view_ok_def)

lemma confirmAnswer_ok:
  assumes ok: "view_ok v" and nc: "\<not> completed v" and ns: "\<not> isSubmitted v"
  shows "\<exists>v'. confirmAnswer v = Inr v' \<and> view_ok v' \<and>
              answers_kept (session v) (session v') \<and>
              (answers_nonempty (session v) \<longrightarrow> answers_nonempty (session v'))"
proof (cases "length (draftSelection v) = 0")
  case True
  with ok show ?thesis
    by (simp add: confirmAnswer_def answers_kept_def)
next
  case False
  let ?q = "questions (session v) ! currentQuestionIndex (session v)"
  let ?new = "Map_set (answers (session v)) (qid ?q) (draftSelection v)"
  let ?s' = "updateSessionSafe v (\<lambda>s. s\<lparr>answers := ?new\<rparr>)"
  from ok have ix: "currentQuestionIndex (session v) < length (questions (session v))"
    by (simp add: view_ok_def)
  from ok nc ns have none: "Map_get (answers (session v)) (qid ?q) = None"
    by (simp add: view_ok_def)
  have ok': "view_ok (v\<lparr>isSubmitting := True\<rparr>)" using ok by (simp add: view_ok_def)
  have "\<exists>v'. rerender True (v\<lparr>isSubmitting := True\<rparr>) ?s' = Inr v' \<and> view_ok v' \<and> session v' = ?s'"
    by (rule rerender_ok[OF ok']) (simp_all add: updateSessionSafe_def ix nc)
  then obtain v' where r: "rerender True (v\<lparr>isSubmitting := True\<rparr>) ?s' = Inr v'"
    and o: "view_ok v'" and s: "session v' = ?s'" by blast
  have c: "confirmAnswer v = Inr v'"
    using False ix r by (simp add: confirmAnswer_def currentQ_def Let_def)
  have a: "answers (session v') = ?new" using s by (simp add: updateSessionSafe_def)
  have kept: "answers_kept (session v) (session v')"
    unfolding answers_kept_def a using none by (auto simp: Map_get_def map_of_Map_set)
  have "answers_nonempty (session v) \<longrightarrow> answers_nonempty (session v')"
    unfolding answers_nonempty_def a list_all_iff
    using set_Map_set[of "answers (session v)" "qid ?q" "draftSelection v"] False by fastforce
  with c o kept show ?thesis by blast
qed

lemma dispatch_ok:
  assumes ok: "view_ok v"
  shows "\<exists>v'. dispatch v ev = Inr v' \<and> view_ok v' \<and>
              answers_kept (session v) (session v') \<and>
              (answers_nonempty (session v) \<longrightarrow> answers_nonempty (session v'))"
proof (cases "completed v")
  case True
  with ok show ?thesis by (simp add: dispatch_def answers_kept_def)
next
  case nc: False
  from ok have ix: "currentQuestionIndex (session v) < length (questions (session v))"
    by (simp add: view_ok_def)
  have same: "\<And>r. \<exists>v'. r = Inr v' \<and> view_ok v' \<and> answers (session v') = answers (session v) \<Longrightarrow>
       \<exists>v'. r = Inr v' \<and> view_ok v' \<and> answers_kept (session v) (session v') \<and>
            (answers_nonempty (session v) \<longrightarrow> answers_nonempty (session v'))"
    by (auto simp: answers_kept_same answers_nonempty_same)
  have stay: "\<exists>v'. Inr v = Inr v' \<and> view_ok v' \<and> answers_kept (session v) (session v') \<and>
            (answers_nonempty (session v) \<longrightarrow> answers_nonempty (session v'))"
    using ok by (simp add: answers_kept_def)
  show ?thesis
  proof (cases ev)
    case (ClickOption idx)
    with nc ix stay same[OF handleDraftSelect_ok[OF ok nc, of idx]] show ?thesis
      by (simp add: dispatch_def currentQ_def)
  next
    case ClickSubmit
    show ?thesis
    proof (cases "\<not> isSubmitted v \<and> \<not> (length (draftSelection v) = 0 \<or> isSubmitting v)")
      case True
      then have "\<not> isSubmitted v" by simp
      from confirmAnswer_ok[OF ok nc this] True ClickSubmit nc ix show ?thesis
        by (simp add: dispatch_def currentQ_def)
    next
      case False
      then have "dispatch v ev = Inr v" using ClickSubmit nc ix by (auto simp: dispatch_def currentQ_def)
      with stay show ?thesis by simp
    qed
  next
    case ClickNext
    with nc ix stay same[OF handleNext_ok[OF ok nc]] show ?thesis
      by (simp add: dispatch_def currentQ_def)
  next
    case ClickSkip
    with nc ix stay same[OF handleNext_ok[OF ok nc]] show ?thesis
      by (simp add: dispatch_def currentQ_def handleSkip_def)
  next
    case ClickPrevious
    with nc ix stay same[OF handlePrev_ok[OF ok nc]] show ?thesis
      by (simp add: dispatch_def currentQ_def)
  next
    case (ClickNavigator idx)
    show ?thesis
    proof (cases "idx < length (questions (session v)) \<and> \<not> isSubmitting v")
      case True
      then have i: "idx < length (questions (session v))" by simp
      from same[OF navigate_ok[OF ok nc i]] True ClickNavigator nc ix show ?thesis
        by (simp add: dispatch_def currentQ_def)
    next
      case False
      then have "dispatch v ev = Inr v" using ClickNavigator nc ix by (auto simp: dispatch_def currentQ_def)
      with stay show ?thesis by simp
    qed
  next
    case ClickLibrary
    with nc ix same[OF library_ok[OF ok nc]] show ?thesis
      by (simp add: dispatch_def currentQ_def)
  next
    case ClickExplanation
    have "view_ok (v\<lparr>showExplanationText := \<not> showExplanationText v\<rparr>)"
      using ok by (simp add: view_ok_def)
    with ClickExplanation nc ix stay show ?thesis
      by (simp add: dispatch_def currentQ_def answers_kept_same answers_nonempty_same)
  next
    case Tick
    have "view_ok (tick v)" using ok by (simp add: tick_def view_ok_def Let_def)
    moreover have "answers (session (tick v)) = answers (session v)" by (simp add: tick_def Let_def)
    ultimately show ?thesis using Tick nc ix
      by (simp add: dispatch_def currentQ_def answers_kept_same answers_nonempty_same)
  qed
qed

lemma answers_kept_trans: "answers_kept s s' \<Longrightarrow> answers_kept s' s'' \<Longrightarrow> answers_kept s s''"
  by (simp add: answers_kept_def)

lemma run_events_ok:
  "view_ok v \<Longrightarrow>
   \<exists>v'. run_events v evs = Inr v' \<and> view_ok v' \<and> answers_kept (session v) (session v') \<and>
        (answers_nonempty (session v) \<longrightarrow> answers_nonempty (session v'))"
proof (induction evs arbitrary: v)
  case Nil
  then show ?case by (simp add: answers_kept_def)
next
  case (Cons ev evs)
  from dispatch_ok[OF Cons.prems, of ev] obtain v1 where
    d: "dispatch v ev = Inr v1" and o: "view_ok v1" and k: "answers_kept (session v) (session v1)"
    and n: "answers_nonempty (session v) \<longrightarrow> answers_nonempty (session v1)" by blast
  from Cons.IH[OF o] obtain v2 where
    r: "run_events v1 evs = Inr v2" and o2: "view_ok v2" and k2: "answers_kept (session v1) (session v2)"
    and n2: "answers_nonempty (session v1) \<longrightarrow> answers_nonempty (session v2)" by blast
  have "run_events v (ev # evs) = Inr v2" using d r by simp
  moreover have "answers_kept (session v) (session v2)" by (rule answers_kept_trans[OF k k2])
  ultimately show ?case using o2 n n2 by blast
qed


lemma answers_after_total: "mount s = Inr v \<Longrightarrow> \<exists>ans. answers_after s evs = Inr ans"
  using run_events_ok[of v evs] mount_ok[of s v] by (auto simp: answers_after_def)



lemma startExam_answers: "startExam now shuffle banks sel lim fb = Inr s \<Longrightarrow> answers s = []"
  by (auto simp: startExam_def Let_def split: list.splits)

lemma startMistakeReview_answers: "startMistakeReview now shuffle ms = Some s \<Longrightarrow> answers s = []"
  by (auto simp: startMistakeReview_def split: if_splits)

text \<open>
  Claim C10: in every session reached from a freshly started exam or mistake-review
  session by any sequence of operations, every entry of the answer map is a non-empty
  list of option indices (confirming with an empty draft does nothing).
\<close>

theorem answers_never_empty:
  assumes "startExam now shuffle banks selectedBankIds timeLimitInput feedback = Inr s0 \<or>
           startMistakeReview now' shuffle' mistakes = Some s0"
    and "answers_after s0 evs = Inr ans"
  shows "\<forall>e \<in> set ans. snd e \<noteq> []"
proof -
  from assms(1) have e: "answers s0 = []"
    using startExam_answers startMistakeReview_answers by blast
  from assms(2) obtain v0 v where m: "mount s0 = Inr v0" and r: "run_events v0 evs = Inr v"
    and a: "ans = answers (session v)"
    by (auto simp: answers_after_def split: sum.splits)
  from mount_ok[OF m] have ok0: "view_ok v0" and s: "session v0 = s0" by simp_all
  have "answers_nonempty (session v0)" using e s by (simp add: answers_nonempty_def)
  with run_events_ok[OF ok0, of evs] r have "answers_nonempty (session v)" by simp
  then show ?thesis using a by (simp add: answers_nonempty_def list_all_iff)
qed

text \<open>
  On the example exam and the example review session: a Submit with an empty draft
  stores nothing, and the entry stored afterwards has one index.
\<close>

theorem answers_never_empty_witness:
  "startExam 7 (\<lambda>qs. qs) [example_bank] [js ''1''] 0 True = Inr example_exam \<and>
   answers_after example_exam [ClickSubmit, ClickOption 1, ClickSubmit, ClickNext, ClickSubmit]
     = Inr [(js ''q-1-0'', [Num 1])] \<and>
   (js ''q-1-0'', [Num 1]) \<in> set [(js ''q-1-0'', [Num 1])] \<and>
   snd (js ''q-1-0'', [Num (1::int)]) \<noteq> [] \<and>
   startMistakeReview 9 (\<lambda>qs. qs)
     [\<lparr>question = example_question, consecutiveCorrect = 0, lastReviewed = 3,
       originalBankName = Some (js ''Bank'')\<rparr>] = Some example_review \<and>
   answers_after example_review [ClickOption 0, ClickSubmit] = Inr [(js ''q-1-0'', [Num 0])] \<and>
   snd (js ''q-1-0'', [Num (0::int)]) \<noteq> []"
proof -
  have 1: "startExam 7 (\<lambda>qs. qs) [example_bank] [js ''1''] 0 True = Inr example_exam"
    by code_simp
  have 2: "answers_after example_exam [ClickSubmit, ClickOption 1, ClickSubmit, ClickNext, ClickSubmit]
     = Inr [(js ''q-1-0'', [Num 1])]"
    by code_simp
  have 3: "startMistakeReview 9 (\<lambda>qs. qs)
     [\<lparr>question = example_question, consecutiveCorrect = 0, lastReviewed = 3,
       originalBankName = Some (js ''Bank'')\<rparr>] = Some example_review"
    by code_simp
  have 4: "answers_after example_review [ClickOption 0, ClickSubmit] = Inr [(js ''q-1-0'', [Num 0])]"
    by code_simp
  have a: "snd (js ''q-1-0'', [Num (1::int)]) \<noteq> []"
    using answers_never_empty[OF disjI1[OF 1] 2] by simp
  have b: "snd (js ''q-1-0'', [Num (0::int)]) \<noteq> []"
    using answers_never_empty[OF disjI2[OF 3] 4] by simp
  from 1 2 3 4 a b show ?thesis by simp
qed

end
